theory Spec2Isabelle
  imports Main "HOL-Library.Sublist" "HOL-Library.Char_ord" "HOL-Library.List_Lexorder"
begin

section \<open>Values and errors\<close>

text \<open>
  The annotation store \<^verbatim>\<open>self.annotations\<close> starts as an empty dict and may be replaced
  by whatever \<^verbatim>\<open>json.load\<close> returns, so it is modelled as a value of the Python types
  that \<^verbatim>\<open>json\<close> produces. A dict is an association list in insertion order. Numbers with
  a fraction or an exponent (Python floats) are outside the model.
\<close>

datatype json =
    JNull
  | JBool bool
  | JInt int
  | JStr string
  | JArr "json list"
  | JObj "(string \<times> json) list"

text \<open>
  Exceptions that escape an event handler end the handler (and, under PyQt5, the
  session). \<^verbatim>\<open>json.JSONDecodeError\<close> is caught by the source and is therefore not an
  error value.
\<close>

datatype error =
    AttributeError | TypeError | KeyError | IndexError | ValueError | RecursionError
  | DecodeFailure | SystemExit

text \<open>
  What \<^verbatim>\<open>json.load\<close> does with the text of a file: it returns a value, it raises
  \<^verbatim>\<open>JSONDecodeError\<close>, or it raises another exception (\<^verbatim>\<open>RecursionError\<close> on deep
  nesting, \<^verbatim>\<open>ValueError\<close> on an overlong integer or, as \<^verbatim>\<open>UnicodeDecodeError\<close>, on
  bytes that are no text).
\<close>

datatype load_result = Loaded json | JSONDecodeError | Raises error

definition bind_result :: "error + 'a \<Rightarrow> ('a \<Rightarrow> error + 'b) \<Rightarrow> error + 'b" where
  "bind_result r f = (case r of Inl e \<Rightarrow> Inl e | Inr x \<Rightarrow> f x)"

section \<open>Axes and volumes\<close>

text \<open>The items of \<^verbatim>\<open>axis_combo\<close>; the combo box is not editable, so no other text occurs.\<close>

datatype axis = Axial | Coronal | Sagittal

fun axis_text :: "axis \<Rightarrow> string" where
  "axis_text Axial = ''axial''"
| "axis_text Coronal = ''coronal''"
| "axis_text Sagittal = ''sagittal''"

text \<open>\<^verbatim>\<open>{"sagittal":0, "coronal":1, "axial":2}[self.axis]\<close>\<close>

fun axis_idx :: "axis \<Rightarrow> nat" where
  "axis_idx Sagittal = 0"
| "axis_idx Coronal = 1"
| "axis_idx Axial = 2"

text \<open>
  A decoded volume is represented by its shape \<open>(X, Y, Z)\<close>; the voxel intensities are
  floating-point numbers and play no part in navigation or annotation.
\<close>

type_synonym shape = "nat \<times> nat \<times> nat"

fun shape_at :: "shape \<Rightarrow> nat \<Rightarrow> nat" where
  "shape_at (x, y, z) n = (if n = 0 then x else if n = 1 then y else z)"

definition extent :: "shape \<Rightarrow> axis \<Rightarrow> nat" where
  "extent sh a = shape_at sh (axis_idx a)"

text \<open>
  The three indexing expressions of \<^verbatim>\<open>update_view\<close>. numpy accepts an index \<open>i\<close> with
  \<open>-n \<le> i < n\<close> on a dimension of size \<open>n\<close> (a negative one counts from the end) and raises
  IndexError otherwise. The result is the shape of the 2D slice.
\<close>

fun slice_shape :: "shape \<Rightarrow> axis \<Rightarrow> nat \<times> nat" where
  "slice_shape (x, y, z) Axial = (x, y)"
| "slice_shape (x, y, z) Coronal = (x, z)"
| "slice_shape (x, y, z) Sagittal = (y, z)"

definition slice_data :: "shape \<Rightarrow> axis \<Rightarrow> int \<Rightarrow> error + (nat \<times> nat)" where
  "slice_data sh a idx =
     (if - int (extent sh a) \<le> idx \<and> idx < int (extent sh a)
      then Inr (slice_shape sh a) else Inl IndexError)"

section \<open>Widgets\<close>

text \<open>
  \<^verbatim>\<open>QSlider\<close>: range, value and enabled flag. A new slider has range \<open>[0, 99]\<close> and
  value \<open>0\<close>; \<^verbatim>\<open>init_ui\<close> disables it.
\<close>

record slider =
  sl_min :: int
  sl_max :: int
  sl_value :: int
  sl_enabled :: bool

definition bound :: "slider \<Rightarrow> int \<Rightarrow> int" where
  "bound sl v = max (sl_min sl) (min (sl_max sl) v)"

text \<open>What the canvas shows after \<^verbatim>\<open>update_view\<close>: title, slice shape and zoom.\<close>

record rendered =
  r_axis :: axis
  r_idx :: int
  r_shape :: "nat \<times> nat"
  r_zoom :: int

text \<open>
  One line of the annotation panel: \<^verbatim>\<open>pages if pages else 'N/A'\<close>. The text is kept
  structured instead of formatted.
\<close>

datatype shown = Pages json | NA

section \<open>The window\<close>

record explorer =
  data :: "shape option"
  axis :: "axis option"
  slice_index :: "int option"
  annotations :: json
  folder :: "string option"
  file_items :: "string list"
  current_item :: "string option"
  axis_combo :: axis
  slice_slider :: slider
  zoom_spin :: int
  annotation_display :: "(string \<times> (string \<times> shown) list) option"
  figure :: "rendered option"
  stdout :: "string list"
  fs :: "string \<rightharpoonup> string"

text \<open>
  The external collaborators: the volume decoder (the shape it decodes at a path, if it
  succeeds), the directory listing and the \<^verbatim>\<open>json\<close> module.
\<close>

record world =
  listdir :: "string \<Rightarrow> string list"
  nib_load :: "string \<Rightarrow> shape option"
  json_dumps :: "json \<Rightarrow> string"
  json_loads :: "string \<Rightarrow> load_result"

text \<open>
  \<^verbatim>\<open>__init__\<close> before \<^verbatim>\<open>open_folder\<close>: \<^verbatim>\<open>self.data = None\<close>,
  \<^verbatim>\<open>self.annotations = {}\<close> and the widgets as \<^verbatim>\<open>init_ui\<close> leaves them. The attributes
  \<^verbatim>\<open>axis\<close>, \<^verbatim>\<open>slice_index\<close> and \<^verbatim>\<open>folder\<close> are not assigned yet.
\<close>

definition init :: "(string \<rightharpoonup> string) \<Rightarrow> explorer" where
  "init disk =
     \<lparr>data = None, axis = None, slice_index = None, annotations = JObj [],
      folder = None, file_items = [], current_item = None, axis_combo = Axial,
      slice_slider = \<lparr>sl_min = 0, sl_max = 99, sl_value = 0, sl_enabled = False\<rparr>,
      zoom_spin = 100, annotation_display = None, figure = None, stdout = [],
      fs = disk\<rparr>"

section \<open>Rendering and navigation\<close>

definition update_view :: "explorer \<Rightarrow> error + explorer" where
  "update_view s =
     (case axis s of
        None \<Rightarrow> Inl AttributeError
      | Some a \<Rightarrow>
          (case data s of
             None \<Rightarrow> Inl TypeError
           | Some sh \<Rightarrow>
               bind_result (slice_data sh a (sl_value (slice_slider s)))
                 (\<lambda>sd. Inr (s\<lparr>figure := Some \<lparr>r_axis = a, r_idx = sl_value (slice_slider s),
                                               r_shape = sd, r_zoom = zoom_spin s\<rparr>\<rparr>))))"

definition on_slice_changed :: "int \<Rightarrow> explorer \<Rightarrow> error + explorer" where
  "on_slice_changed idx s =
     (if data s \<noteq> None then update_view (s\<lparr>slice_index := Some idx\<rparr>) else Inr s)"

text \<open>
  \<^verbatim>\<open>slice_slider.setValue(v)\<close>: Qt bounds the value into the range and, when it differs
  from the old one, emits \<^verbatim>\<open>valueChanged\<close>, which runs \<^verbatim>\<open>on_slice_changed\<close>.
\<close>

definition slider_setValue :: "int \<Rightarrow> explorer \<Rightarrow> error + explorer" where
  "slider_setValue v s =
     (let b = bound (slice_slider s) v in
      if b = sl_value (slice_slider s) then Inr s
      else on_slice_changed b (s\<lparr>slice_slider := (slice_slider s)\<lparr>sl_value := b\<rparr>\<rparr>))"

text \<open>
  \<^verbatim>\<open>slice_slider.setMaximum(m)\<close>: Qt sets the range to \<open>[min(minimum, m), m]\<close> and
  re-bounds the value.
\<close>

definition slider_setMaximum :: "int \<Rightarrow> explorer \<Rightarrow> error + explorer" where
  "slider_setMaximum m s =
     (let sl = slice_slider s;
          s1 = s\<lparr>slice_slider := sl\<lparr>sl_min := min (sl_min sl) m, sl_max := m\<rparr>\<rparr>
      in slider_setValue (sl_value sl) s1)"

definition update_slider :: "explorer \<Rightarrow> error + explorer" where
  "update_slider s =
     (case axis s of
        None \<Rightarrow> Inl AttributeError
      | Some a \<Rightarrow>
          (case data s of
             None \<Rightarrow> Inl AttributeError
           | Some sh \<Rightarrow>
               (let max_idx = int (shape_at sh (axis_idx a)) - 1 in
                bind_result (slider_setMaximum max_idx s)
                  (\<lambda>s1. slider_setValue (max_idx div 2)
                           (s1\<lparr>slice_slider := (slice_slider s1)\<lparr>sl_enabled := True\<rparr>\<rparr>)))))"

definition on_axis_changed :: "axis \<Rightarrow> explorer \<Rightarrow> error + explorer" where
  "on_axis_changed a s =
     (let s1 = s\<lparr>axis := Some a\<rparr> in
      if data s1 \<noteq> None then bind_result (update_slider s1) update_view else Inr s1)"

text \<open>The zoom spin box is connected to \<^verbatim>\<open>update_view\<close> directly; its range is \<open>[10, 500]\<close>.\<close>

definition zoom_setValue :: "int \<Rightarrow> explorer \<Rightarrow> error + explorer" where
  "zoom_setValue v s =
     (let b = max 10 (min 500 v) in
      if b = zoom_spin s then Inr s else update_view (s\<lparr>zoom_spin := b\<rparr>))"

text \<open>The user picks an entry of the axis combo box; the signal fires when the text changes.\<close>

definition select_axis :: "axis \<Rightarrow> explorer \<Rightarrow> error + explorer" where
  "select_axis a s =
     (if axis_combo s = a then Inr s else on_axis_changed a (s\<lparr>axis_combo := a\<rparr>))"

definition wheelEvent :: "int \<Rightarrow> explorer \<Rightarrow> error + explorer" where
  "wheelEvent delta s =
     (if data s = None \<or> \<not> sl_enabled (slice_slider s) then Inr s
      else
        (let step = (if delta > 0 then 1 else - 1);
             new_value = sl_value (slice_slider s) + step;
             new_value = max 0 (min new_value (sl_max (slice_slider s)))
         in slider_setValue new_value s))"

section \<open>Python operations on the store\<close>

fun py_truthy :: "json \<Rightarrow> bool" where
  "py_truthy JNull = False"
| "py_truthy (JBool b) = b"
| "py_truthy (JInt n) = (n \<noteq> 0)"
| "py_truthy (JStr t) = (t \<noteq> [])"
| "py_truthy (JArr xs) = (xs \<noteq> [])"
| "py_truthy (JObj kvs) = (kvs \<noteq> [])"

text \<open>\<^verbatim>\<open>d[k] = v\<close> on a dict: an existing key keeps its place, a new key goes last.\<close>

fun dict_set :: "(string \<times> json) list \<Rightarrow> string \<Rightarrow> json \<Rightarrow> (string \<times> json) list" where
  "dict_set [] k v = [(k, v)]"
| "dict_set (p # ps) k v = (if fst p = k then (k, v) # ps else p # dict_set ps k v)"

text \<open>\<^verbatim>\<open>k in c\<close> for a string \<open>k\<close>: key of a dict, element of a list, substring of a string.\<close>

fun py_contains_str :: "json \<Rightarrow> string \<Rightarrow> error + bool" where
  "py_contains_str (JObj kvs) k = Inr (k \<in> fst ` set kvs)"
| "py_contains_str (JArr xs) k = Inr (JStr k \<in> set xs)"
| "py_contains_str (JStr t) k = Inr (sublist k t)"
| "py_contains_str _ k = Inl TypeError"

text \<open>\<^verbatim>\<open>c[k] = v\<close> and \<^verbatim>\<open>c[k]\<close> for a string \<open>k\<close>: only a dict takes a string subscript.\<close>

fun py_setitem :: "json \<Rightarrow> string \<Rightarrow> json \<Rightarrow> error + json" where
  "py_setitem (JObj kvs) k v = Inr (JObj (dict_set kvs k v))"
| "py_setitem _ k v = Inl TypeError"

fun py_getitem :: "json \<Rightarrow> string \<Rightarrow> error + json" where
  "py_getitem (JObj kvs) k = (case map_of kvs k of None \<Rightarrow> Inl KeyError | Some v \<Rightarrow> Inr v)"
| "py_getitem _ k = Inl TypeError"

text \<open>\<^verbatim>\<open>c.get(k, d)\<close>: only a dict has the method.\<close>

fun py_get :: "json \<Rightarrow> string \<Rightarrow> json \<Rightarrow> error + json" where
  "py_get (JObj kvs) k d = Inr (case map_of kvs k of None \<Rightarrow> d | Some v \<Rightarrow> v)"
| "py_get _ k d = Inl AttributeError"

text \<open>
  Python compares an int with a bool as with \<open>0\<close> or \<open>1\<close>; no other modelled value is
  equal to, or ordered against, an int.
\<close>

fun is_intlike :: "json \<Rightarrow> bool" where
  "is_intlike (JInt n) = True"
| "is_intlike (JBool b) = True"
| "is_intlike _ = False"

fun int_of :: "json \<Rightarrow> int" where
  "int_of (JInt n) = n"
| "int_of (JBool b) = (if b then 1 else 0)"
| "int_of _ = 0"

text \<open>\<^verbatim>\<open>i in c\<close> for an int \<open>i\<close>: the keys of a dict are strings, a string rejects an int.\<close>

fun py_contains_int :: "json \<Rightarrow> int \<Rightarrow> error + bool" where
  "py_contains_int (JArr xs) i = Inr (\<exists>x \<in> set xs. is_intlike x \<and> int_of x = i)"
| "py_contains_int (JObj kvs) i = Inr False"
| "py_contains_int _ i = Inl TypeError"

fun py_append :: "json \<Rightarrow> json \<Rightarrow> error + json" where
  "py_append (JArr xs) v = Inr (JArr (xs @ [v]))"
| "py_append _ v = Inl AttributeError"

text \<open>
  \<^verbatim>\<open>c.sort()\<close> of a list that holds at least one int (it is called right after an int
  was appended): a stable sort by value when every element is an int or a bool, a
  TypeError as soon as another value has to be compared with the int.
\<close>

fun py_sort :: "json \<Rightarrow> error + json" where
  "py_sort (JArr xs) =
     (if list_all is_intlike xs then Inr (JArr (sort_key int_of xs)) else Inl TypeError)"
| "py_sort _ = Inl AttributeError"

text \<open>\<^verbatim>\<open>os.path.join(a, b)\<close> on POSIX.\<close>

definition path_join :: "string \<Rightarrow> string \<Rightarrow> string" where
  "path_join a b =
     (if b \<noteq> [] \<and> hd b = CHR ''/'' then b
      else if a = [] \<or> last a = CHR ''/'' then a @ b
      else a @ ''/'' @ b)"

section \<open>The annotation panel\<close>

definition empty_record :: json where
  "empty_record = JObj [(''axial'', JArr []), (''coronal'', JArr []), (''sagittal'', JArr [])]"

definition display_line :: "json \<Rightarrow> axis \<Rightarrow> error + (string \<times> shown)" where
  "display_line annotation a =
     bind_result (py_get annotation (axis_text a) (JArr []))
       (\<lambda>pages. Inr (axis_text a, if py_truthy pages then Pages pages else NA))"

fun display_lines :: "json \<Rightarrow> axis list \<Rightarrow> error + (string \<times> shown) list" where
  "display_lines annotation [] = Inr []"
| "display_lines annotation (a # as) =
     bind_result (display_line annotation a)
       (\<lambda>l. bind_result (display_lines annotation as) (\<lambda>ls. Inr (l # ls)))"

definition update_annotation_display :: "explorer \<Rightarrow> error + explorer" where
  "update_annotation_display s =
     (case current_item s of
        None \<Rightarrow> Inr s
      | Some filename \<Rightarrow>
          bind_result (py_get (annotations s) filename empty_record)
            (\<lambda>annotation.
               bind_result (display_lines annotation [Axial, Coronal, Sagittal])
                 (\<lambda>ls. Inr (s\<lparr>annotation_display := Some (filename, ls)\<rparr>))))"

section \<open>Confirming a page\<close>

text \<open>
  The store update of \<^verbatim>\<open>annotate_page\<close> (from \<^verbatim>\<open>if filename not in self.annotations\<close>
  to \<^verbatim>\<open>.sort()\<close>). The list is mutated in place; the store is a tree without sharing, so
  the update is written back along the path \<^verbatim>\<open>[filename][axis]\<close>.
\<close>

definition confirm :: "json \<Rightarrow> string \<Rightarrow> string \<Rightarrow> int \<Rightarrow> error + json" where
  "confirm store filename a idx =
     bind_result (py_contains_str store filename) (\<lambda>present.
     bind_result (if present then Inr store
                  else py_setitem store filename empty_record) (\<lambda>anns.
     bind_result (py_getitem anns filename) (\<lambda>record.
     bind_result (py_getitem record a) (\<lambda>pages.
     bind_result (py_contains_int pages idx) (\<lambda>has.
       if has then Inr anns
       else
         bind_result (py_append pages (JInt idx)) (\<lambda>pages1.
         bind_result (py_sort pages1) (\<lambda>pages2.
         bind_result (py_setitem record a pages2) (\<lambda>record1.
         py_setitem anns filename record1))))))))"

definition annotate_page :: "explorer \<Rightarrow> error + explorer" where
  "annotate_page s =
     (case current_item s of
        None \<Rightarrow> Inr s
      | Some filename \<Rightarrow>
          bind_result
            (confirm (annotations s) filename (axis_text (axis_combo s)) (sl_value (slice_slider s)))
            (\<lambda>anns. update_annotation_display (s\<lparr>annotations := anns\<rparr>)))"

section \<open>Files\<close>

definition on_file_changed :: "world \<Rightarrow> string option \<Rightarrow> explorer \<Rightarrow> error + explorer" where
  "on_file_changed w current s =
     (case current of
        None \<Rightarrow> Inr s
      | Some file_name \<Rightarrow>
          (case folder s of
             None \<Rightarrow> Inl AttributeError
           | Some dir \<Rightarrow>
               (case nib_load w (path_join dir file_name) of
                  None \<Rightarrow> Inl DecodeFailure
                | Some sh \<Rightarrow>
                    bind_result (update_slider (s\<lparr>data := Some sh, axis := Some (axis_combo s)\<rparr>))
                      (\<lambda>s1. bind_result (update_view s1) update_annotation_display))))"

text \<open>The user clicks an entry of the file list; the signal fires when the entry changes.\<close>

definition select_file :: "world \<Rightarrow> string \<Rightarrow> explorer \<Rightarrow> error + explorer" where
  "select_file w f s =
     (if f \<notin> set (file_items s) \<or> current_item s = Some f then Inr s
      else on_file_changed w (Some f) (s\<lparr>current_item := Some f\<rparr>))"

definition load_files :: "world \<Rightarrow> string \<Rightarrow> explorer \<Rightarrow> error + explorer" where
  "load_files w dir s =
     (let nii_files = sort (filter (\<lambda>f. suffix ''.nii'' f \<or> suffix ''.nii.gz'' f) (listdir w dir));
          s1 = s\<lparr>folder := Some dir, file_items := nii_files, current_item := None\<rparr>
      in if nii_files \<noteq> []
         then on_file_changed w (Some (hd nii_files)) (s1\<lparr>current_item := Some (hd nii_files)\<rparr>)
         else Inr s1)"

definition load_existing_annotations :: "world \<Rightarrow> explorer \<Rightarrow> error + explorer" where
  "load_existing_annotations w s =
     (case folder s of
        None \<Rightarrow> Inl AttributeError
      | Some dir \<Rightarrow>
          (case fs s (path_join dir ''annotations.json'') of
             None \<Rightarrow> Inr s
           | Some text \<Rightarrow>
               (case json_loads w text of
                  Loaded v \<Rightarrow> Inr (s\<lparr>annotations := v\<rparr>)
                | JSONDecodeError \<Rightarrow>
                    Inr (s\<lparr>stdout := stdout s @ [''Failed to parse annotations.json'']\<rparr>)
                | Raises e \<Rightarrow> Inl e)))"

text \<open>\<^verbatim>\<open>open_folder\<close>; the dialog returns the chosen directory, or the empty string.\<close>

definition open_folder :: "world \<Rightarrow> string \<Rightarrow> explorer \<Rightarrow> error + explorer" where
  "open_folder w chosen s =
     (if chosen \<noteq> [] then bind_result (load_files w chosen s) (load_existing_annotations w)
      else Inl SystemExit)"

definition export_current_annotation :: "world \<Rightarrow> explorer \<Rightarrow> error + explorer" where
  "export_current_annotation w s =
     (case current_item s of
        None \<Rightarrow> Inr s
      | Some filename \<Rightarrow>
          bind_result (py_get (annotations s) filename JNull) (\<lambda>annotation.
            if py_truthy annotation
            then (case folder s of
                    None \<Rightarrow> Inl AttributeError
                  | Some dir \<Rightarrow>
                      Inr (s\<lparr>fs := (fs s)(path_join dir (filename @ ''_annotation.json'')
                                     \<mapsto> json_dumps w (JObj [(filename, annotation)]))\<rparr>))
            else Inr s))"

definition save_annotations :: "world \<Rightarrow> explorer \<Rightarrow> error + explorer" where
  "save_annotations w s =
     (case folder s of
        None \<Rightarrow> Inl AttributeError
      | Some dir \<Rightarrow>
          Inr (s\<lparr>fs := (fs s)(path_join dir ''annotations.json'' \<mapsto> json_dumps w (annotations s))\<rparr>))"

section \<open>A reference \<^verbatim>\<open>json\<close> module\<close>

text \<open>
  The \<^verbatim>\<open>json\<close> module is a parameter of the model (\<open>json_dumps\<close> and \<open>json_loads\<close> of
  a \<open>world\<close>). To run the model on concrete files, this section gives an executable
  instance for documents made of \<^verbatim>\<open>null\<close>, booleans, integers, strings of 8-bit
  characters, lists and dicts: \<open>json_encode\<close> writes what \<^verbatim>\<open>json.dump(v, f, indent=4)\<close>
  writes, \<open>json_decode\<close> reads as \<^verbatim>\<open>json.load\<close> does, \<open>None\<close> standing for
  \<^verbatim>\<open>JSONDecodeError\<close>. Numbers with a fraction or an exponent and \<^verbatim>\<open>\u\<close> escapes above
  \<^verbatim>\<open>00ff\<close> are outside the model, and \<open>json_decode\<close> gives \<open>None\<close> on them; so are
  Python's recursion limit and its limit on the digits of an integer, beyond which
  \<^verbatim>\<open>json.load\<close> raises where \<open>json_decode\<close> returns a value. The parser takes fuel, twice
  the length of the text and two.
\<close>

text \<open>Integers in decimal.\<close>

definition digit_char :: "nat \<Rightarrow> char" where
  "digit_char d = char_of (48 + d)"

fun show_nat :: "nat \<Rightarrow> string" where
  "show_nat n = (if n < 10 then [digit_char n] else show_nat (n div 10) @ [digit_char (n mod 10)])"

definition show_int :: "int \<Rightarrow> string" where
  "show_int i = (if i < 0 then CHR ''-'' # show_nat (nat (- i)) else show_nat (nat i))"

text \<open>
  Strings: \<^verbatim>\<open>json.dump\<close> escapes the quote, the backslash and every character outside
  the printable ASCII range (\<^verbatim>\<open>ensure_ascii\<close>).
\<close>

definition hex_char :: "nat \<Rightarrow> char" where
  "hex_char d = (if d < 10 then char_of (48 + d) else char_of (87 + d))"

definition escape_char :: "char \<Rightarrow> string" where
  "escape_char c =
     (if c = CHR 0x22 then [CHR 0x5C, CHR 0x22]
      else if c = CHR 0x5C then [CHR 0x5C, CHR 0x5C]
      else if c = CHR 0x0A then [CHR 0x5C, CHR ''n'']
      else if c = CHR 0x0D then [CHR 0x5C, CHR ''r'']
      else if c = CHR 0x09 then [CHR 0x5C, CHR ''t'']
      else if c = CHR 0x08 then [CHR 0x5C, CHR ''b'']
      else if c = CHR 0x0C then [CHR 0x5C, CHR ''f'']
      else if (of_char c :: nat) < 32 \<or> 126 < (of_char c :: nat)
        then [CHR 0x5C, CHR ''u'', CHR ''0'', CHR ''0'',
              hex_char (of_char c div 16), hex_char (of_char c mod 16)]
      else [c])"

definition show_str :: "string \<Rightarrow> string" where
  "show_str t = [CHR 0x22] @ concat (map escape_char t) @ [CHR 0x22]"

text \<open>
  With \<^verbatim>\<open>indent=4\<close> every item of a non-empty list or dict is on a line of its own, the
  items are separated by a comma and a newline, a key from its value by a colon and a
  space.
\<close>

fun join :: "string \<Rightarrow> string list \<Rightarrow> string" where
  "join sep [] = []"
| "join sep [x] = x"
| "join sep (x # y # ys) = x @ sep @ join sep (y # ys)"

definition indent :: "nat \<Rightarrow> string" where
  "indent lvl = replicate (4 * lvl) CHR '' ''"

fun encode :: "nat \<Rightarrow> json \<Rightarrow> string" where
  "encode lvl JNull = ''null''"
| "encode lvl (JBool b) = (if b then ''true'' else ''false'')"
| "encode lvl (JInt i) = show_int i"
| "encode lvl (JStr t) = show_str t"
| "encode lvl (JArr xs) =
     (if xs = [] then ''[]''
      else ''['' @ [CHR 0x0A]
           @ join ('','' @ [CHR 0x0A]) (map (\<lambda>x. indent (Suc lvl) @ encode (Suc lvl) x) xs)
           @ [CHR 0x0A] @ indent lvl @ '']'')"
| "encode lvl (JObj kvs) =
     (if kvs = [] then ''{}''
      else ''{'' @ [CHR 0x0A]
           @ join ('','' @ [CHR 0x0A])
               (map (\<lambda>kv. indent (Suc lvl) @ show_str (fst kv) @ '': '' @ encode (Suc lvl) (snd kv)) kvs)
           @ [CHR 0x0A] @ indent lvl @ ''}'')"

definition json_encode :: "json \<Rightarrow> string" where
  "json_encode v = encode 0 v"

text \<open>
  Reading: whitespace is skipped between tokens; a string ends at the first unescaped
  quote and may not hold a raw control character; an integer is \<^verbatim>\<open>-?(0|[1-9][0-9]*)\<close>.
\<close>

definition is_ws :: "char \<Rightarrow> bool" where
  "is_ws c = (c = CHR '' '' \<or> c = CHR 0x09 \<or> c = CHR 0x0A \<or> c = CHR 0x0D)"

definition skip_ws :: "string \<Rightarrow> string" where
  "skip_ws t = dropWhile is_ws t"

definition is_digit :: "char \<Rightarrow> bool" where
  "is_digit c = (48 \<le> (of_char c :: nat) \<and> (of_char c :: nat) \<le> 57)"

definition hex_val :: "char \<Rightarrow> nat option" where
  "hex_val c =
     (let n = (of_char c :: nat) in
      if 48 \<le> n \<and> n \<le> 57 then Some (n - 48)
      else if 97 \<le> n \<and> n \<le> 102 then Some (n - 87)
      else if 65 \<le> n \<and> n \<le> 70 then Some (n - 55)
      else None)"

definition unescape :: "char \<Rightarrow> char option" where
  "unescape e =
     (if e = CHR 0x22 then Some (CHR 0x22)
      else if e = CHR 0x5C then Some (CHR 0x5C)
      else if e = CHR ''/'' then Some (CHR ''/'')
      else if e = CHR ''n'' then Some (CHR 0x0A)
      else if e = CHR ''r'' then Some (CHR 0x0D)
      else if e = CHR ''t'' then Some (CHR 0x09)
      else if e = CHR ''b'' then Some (CHR 0x08)
      else if e = CHR ''f'' then Some (CHR 0x0C)
      else None)"

definition hex4 :: "char \<Rightarrow> char \<Rightarrow> char \<Rightarrow> char \<Rightarrow> char option" where
  "hex4 a b c d =
     (case (hex_val a, hex_val b, hex_val c, hex_val d) of
        (Some x, Some y, Some z, Some u) \<Rightarrow>
          (if x = 0 \<and> y = 0 then Some (char_of (16 * z + u)) else None)
      | _ \<Rightarrow> None)"

fun scan_str :: "string \<Rightarrow> (string \<times> string) option" where
  "scan_str [] = None"
| "scan_str (c # r) =
     (if c = CHR 0x22 then Some ([], r)
      else if c = CHR 0x5C then
        (case r of
           [] \<Rightarrow> None
         | e # r2 \<Rightarrow>
             (if e = CHR ''u'' then
                (case r2 of
                   a # b # x # y # r3 \<Rightarrow>
                     (case hex4 a b x y of
                        None \<Rightarrow> None
                      | Some ch \<Rightarrow> map_option (\<lambda>p. (ch # fst p, snd p)) (scan_str r3))
                 | _ \<Rightarrow> None)
              else
                (case unescape e of
                   None \<Rightarrow> None
                 | Some ch \<Rightarrow> map_option (\<lambda>p. (ch # fst p, snd p)) (scan_str r2))))
      else if (of_char c :: nat) < 32 then None
      else map_option (\<lambda>p. (c # fst p, snd p)) (scan_str r))"

definition digits_val :: "string \<Rightarrow> int" where
  "digits_val ds = foldl (\<lambda>a d. 10 * a + (int (of_char d) - 48)) 0 ds"

definition scan_int :: "string \<Rightarrow> (int \<times> string) option" where
  "scan_int t =
     (let neg = (t \<noteq> [] \<and> hd t = CHR ''-'');
          r = (if neg then tl t else t);
          ds = (if r \<noteq> [] \<and> hd r = CHR ''0'' then ''0'' else takeWhile is_digit r);
          rest = drop (length ds) r
      in if ds = [] then None
         else if rest \<noteq> [] \<and> (hd rest = CHR ''.'' \<or> hd rest = CHR ''e'' \<or> hd rest = CHR ''E'') then None
         else Some (if neg then - digits_val ds else digits_val ds, rest))"

text \<open>
  A value, the items of a list after its bracket, the members of a dict after its brace.
  A later occurrence of a key replaces the value of the earlier one.
\<close>

fun scan_value :: "nat \<Rightarrow> string \<Rightarrow> (json \<times> string) option"
  and scan_elems :: "nat \<Rightarrow> string \<Rightarrow> (json list \<times> string) option"
  and scan_members :: "nat \<Rightarrow> string \<Rightarrow> ((string \<times> json) list \<times> string) option"
where
  "scan_value 0 t = None"
| "scan_value (Suc n) t =
     (if take 4 t = ''null'' then Some (JNull, drop 4 t)
      else if take 4 t = ''true'' then Some (JBool True, drop 4 t)
      else if take 5 t = ''false'' then Some (JBool False, drop 5 t)
      else if t \<noteq> [] \<and> hd t = CHR 0x22 then
        map_option (\<lambda>p. (JStr (fst p), snd p)) (scan_str (tl t))
      else if t \<noteq> [] \<and> hd t = CHR ''['' then
        (let r = skip_ws (tl t) in
         if r \<noteq> [] \<and> hd r = CHR '']'' then Some (JArr [], tl r)
         else map_option (\<lambda>p. (JArr (fst p), snd p)) (scan_elems n r))
      else if t \<noteq> [] \<and> hd t = CHR ''{'' then
        (let r = skip_ws (tl t) in
         if r \<noteq> [] \<and> hd r = CHR ''}'' then Some (JObj [], tl r)
         else map_option (\<lambda>p. (JObj (foldl (\<lambda>d kv. dict_set d (fst kv) (snd kv)) [] (fst p)), snd p))
                (scan_members n r))
      else map_option (\<lambda>p. (JInt (fst p), snd p)) (scan_int t))"
| "scan_elems 0 t = None"
| "scan_elems (Suc n) t =
     (case scan_value n t of
        None \<Rightarrow> None
      | Some (v, r) \<Rightarrow>
          (let r1 = skip_ws r in
           if r1 \<noteq> [] \<and> hd r1 = CHR '','' then
             map_option (\<lambda>p. (v # fst p, snd p)) (scan_elems n (skip_ws (tl r1)))
           else if r1 \<noteq> [] \<and> hd r1 = CHR '']'' then Some ([v], tl r1)
           else None))"
| "scan_members 0 t = None"
| "scan_members (Suc n) t =
     (if t \<noteq> [] \<and> hd t = CHR 0x22 then
        (case scan_str (tl t) of
           None \<Rightarrow> None
         | Some (k, r) \<Rightarrow>
             (let r1 = skip_ws r in
              if r1 \<noteq> [] \<and> hd r1 = CHR '':'' then
                (case scan_value n (skip_ws (tl r1)) of
                   None \<Rightarrow> None
                 | Some (v, r2) \<Rightarrow>
                     (let r3 = skip_ws r2 in
                      if r3 \<noteq> [] \<and> hd r3 = CHR '','' then
                        map_option (\<lambda>p. ((k, v) # fst p, snd p)) (scan_members n (skip_ws (tl r3)))
                      else if r3 \<noteq> [] \<and> hd r3 = CHR ''}'' then Some ([(k, v)], tl r3)
                      else None))
              else None))
      else None)"

text \<open>The whole text is one value, with whitespace around it at most.\<close>

definition json_decode :: "string \<Rightarrow> json option" where
  "json_decode t =
     (case scan_value (2 * length t + 2) (skip_ws t) of
        None \<Rightarrow> None
      | Some (v, r) \<Rightarrow> if skip_ws r = [] then Some v else None)"

text \<open>The reference module as \<open>json_loads\<close> of a \<open>world\<close>; it raises nothing else.\<close>

definition reference_loads :: "string \<Rightarrow> load_result" where
  "reference_loads t = (case json_decode t of None \<Rightarrow> JSONDecodeError | Some v \<Rightarrow> Loaded v)"

text \<open>
  A value as Python holds it: the keys of every dict are distinct. The weight of a value
  bounds the fuel that parsing its encoding takes.
\<close>

fun json_ok :: "json \<Rightarrow> bool" where
  "json_ok (JArr xs) = list_all json_ok xs"
| "json_ok (JObj kvs) = (distinct (map fst kvs) \<and> list_all (\<lambda>kv. json_ok (snd kv)) kvs)"
| "json_ok _ = True"

fun weight :: "json \<Rightarrow> nat" where
  "weight (JArr xs) = Suc (sum_list (map (\<lambda>x. Suc (weight x)) xs))"
| "weight (JObj kvs) = Suc (sum_list (map (\<lambda>kv. Suc (weight (snd kv))) kvs))"
| "weight _ = Suc 0"

text \<open>
  In an encoded document a value is followed by a comma, by a newline or by nothing, and it
  starts with one of the characters below.
\<close>

definition ok_rest :: "string \<Rightarrow> bool" where
  "ok_rest r \<longleftrightarrow> r = [] \<or> hd r = CHR '','' \<or> hd r = CHR 0x0A"

definition opener :: "char \<Rightarrow> bool" where
  "opener c \<longleftrightarrow> c = CHR ''n'' \<or> c = CHR ''t'' \<or> c = CHR ''f'' \<or> c = CHR 0x22 \<or> c = CHR ''[''
     \<or> c = CHR ''{'' \<or> c = CHR ''-'' \<or> is_digit c"

text \<open>The contract of the \<^verbatim>\<open>json\<close> module that a round trip relies on, at one value.\<close>

definition reads_back :: "world \<Rightarrow> json \<Rightarrow> bool" where
  "reads_back w v \<longleftrightarrow> json_loads w (json_dumps w v) = Loaded v"

section \<open>Invariants of a session\<close>

text \<open>
  A volume is on display: \<^verbatim>\<open>self.data\<close> and \<^verbatim>\<open>self.axis\<close> are set, the slider ranges
  over the indices of the sliced dimension, and the canvas shows the slice at the slider's
  value. The index that \<^verbatim>\<open>update_view\<close> and \<^verbatim>\<open>annotate_page\<close> read is the slider's value.
\<close>

definition loaded :: "explorer \<Rightarrow> shape \<Rightarrow> axis \<Rightarrow> bool" where
  "loaded s sh a \<longleftrightarrow>
     data s = Some sh \<and> axis s = Some a \<and> 0 < extent sh a \<and>
     sl_min (slice_slider s) = 0 \<and> sl_max (slice_slider s) = int (extent sh a) - 1 \<and>
     0 \<le> sl_value (slice_slider s) \<and> sl_value (slice_slider s) \<le> sl_max (slice_slider s) \<and>
     figure s = Some \<lparr>r_axis = a, r_idx = sl_value (slice_slider s),
                      r_shape = slice_shape sh a, r_zoom = zoom_spin s\<rparr>"

text \<open>
  The shape of store that \<^verbatim>\<open>annotate_page\<close> builds: a dict of records, each record a
  dict that maps the three axis names to lists of ints.
\<close>

fun index_list :: "json \<Rightarrow> bool" where
  "index_list (JArr xs) = list_all (\<lambda>x. case x of JInt n \<Rightarrow> True | _ \<Rightarrow> False) xs"
| "index_list _ = False"

fun wf_record :: "json \<Rightarrow> bool" where
  "wf_record (JObj kvs) =
     list_all (\<lambda>a. case map_of kvs (axis_text a) of Some p \<Rightarrow> index_list p | None \<Rightarrow> False)
       [Axial, Coronal, Sagittal]"
| "wf_record _ = False"

fun wf_store :: "json \<Rightarrow> bool" where
  "wf_store (JObj kvs) = list_all (\<lambda>kv. wf_record (snd kv)) kvs"
| "wf_store _ = False"

text \<open>Every index list of the store ascends strictly: it is sorted and has no duplicate.\<close>

fun sorted_pages :: "json \<Rightarrow> bool" where
  "sorted_pages (JArr xs) = (index_list (JArr xs) \<and> sorted_wrt (<) (map int_of xs))"
| "sorted_pages _ = False"

fun sorted_record :: "json \<Rightarrow> bool" where
  "sorted_record (JObj kvs) = list_all (\<lambda>kv. sorted_pages (snd kv)) kvs"
| "sorted_record _ = False"

fun sorted_store :: "json \<Rightarrow> bool" where
  "sorted_store (JObj kvs) = list_all (\<lambda>kv. sorted_record (snd kv)) kvs"
| "sorted_store _ = False"

text \<open>
  What the annotation panel reads for one file and axis:
  \<^verbatim>\<open>self.annotations.get(filename, {...}).get(axis, [])\<close>.
\<close>

definition described_pages :: "json \<Rightarrow> string \<Rightarrow> axis \<Rightarrow> error + json" where
  "described_pages store filename a =
     bind_result (py_get store filename empty_record)
       (\<lambda>annotation. py_get annotation (axis_text a) (JArr []))"

text \<open>
  Moving the slider to each index of a sequence and confirming the page there, one index
  after the other.
\<close>

fun annotate_pages :: "int list \<Rightarrow> explorer \<Rightarrow> error + explorer" where
  "annotate_pages [] s = Inr s"
| "annotate_pages (i # is) s =
     bind_result (slider_setValue i s) (\<lambda>s1. bind_result (annotate_page s1) (annotate_pages is))"

section \<open>Example session states\<close>

text \<open>
  A folder \<^verbatim>\<open>/scans\<close> with the volumes \<^verbatim>\<open>a.nii\<close> of shape \<open>(10, 20, 30)\<close> and
  \<^verbatim>\<open>b.nii\<close> of shape \<open>(4, 6, 8)\<close> and a file that is not a volume.
\<close>

definition example_world :: world where
  "example_world =
     \<lparr>listdir = (\<lambda>d. if d = ''/scans'' then [''b.nii'', ''notes.txt'', ''a.nii''] else []),
      nib_load = (\<lambda>p. if p = ''/scans/a.nii'' then Some (10, 20, 30)
                       else if p = ''/scans/b.nii'' then Some (4, 6, 8) else None),
      json_dumps = json_encode,
      json_loads = reference_loads\<rparr>"

text \<open>
  The session right after the folder \<^verbatim>\<open>/scans\<close> of \<open>example_world\<close> was opened: the
  first file \<^verbatim>\<open>a.nii\<close> of shape \<open>(10, 20, 30)\<close> is on display, axial, at its middle
  slice, and nothing is annotated.
\<close>

definition example_loaded :: explorer where
  "example_loaded =
     \<lparr>data = Some (10, 20, 30), axis = Some Axial, slice_index = Some 14,
      annotations = JObj [], folder = Some ''/scans'',
      file_items = [''a.nii'', ''b.nii''], current_item = Some ''a.nii'', axis_combo = Axial,
      slice_slider = \<lparr>sl_min = 0, sl_max = 29, sl_value = 14, sl_enabled = True\<rparr>,
      zoom_spin = 100,
      annotation_display =
        Some (''a.nii'', [(''axial'', NA), (''coronal'', NA), (''sagittal'', NA)]),
      figure = Some \<lparr>r_axis = Axial, r_idx = 14, r_shape = (10, 20), r_zoom = 100\<rparr>,
      stdout = [], fs = Map.empty\<rparr>"

text \<open>The same session with some pages of \<^verbatim>\<open>a.nii\<close> confirmed.\<close>

definition example_confirmed :: explorer where
  "example_confirmed =
     example_loaded\<lparr>annotations :=
       JObj [(''a.nii'', JObj [(''axial'', JArr [JInt 4, JInt 14]), (''coronal'', JArr []),
                               (''sagittal'', JArr [JInt 7])])]\<rparr>"

text \<open>
  A whole session: open \<^verbatim>\<open>/scans\<close> (which holds \<^verbatim>\<open>a.nii\<close> and \<^verbatim>\<open>b.nii\<close> and no
  annotation file), move the slider to 4, confirm the page, export all annotations.
\<close>

definition single_confirm_session :: "error + explorer" where
  "single_confirm_session =
     bind_result (open_folder example_world ''/scans'' (init Map.empty)) (\<lambda>s0.
     bind_result (slider_setValue 4 s0) (\<lambda>s1.
     bind_result (annotate_page s1) (save_annotations example_world)))"

text \<open>
  A session on a folder whose annotation file holds lists that are not sorted: open
  \<^verbatim>\<open>/scans\<close>, confirm axial page 5 of \<^verbatim>\<open>a.nii\<close>, switch to the coronal axis, confirm
  page 3.
\<close>

definition unsorted_disk :: "string \<rightharpoonup> string" where
  "unsorted_disk =
     [''/scans/annotations.json'' \<mapsto>
        ''{\"a.nii\": {\"axial\": [5, 1], \"coronal\": [1, 1], \"sagittal\": []}}'']"

definition unsorted_file_session :: "error + explorer" where
  "unsorted_file_session =
     bind_result (open_folder example_world ''/scans'' (init unsorted_disk)) (\<lambda>s0.
     bind_result (slider_setValue 5 s0) (\<lambda>s1.
     bind_result (annotate_page s1) (\<lambda>s2.
     bind_result (select_axis Coronal s2) (\<lambda>s3.
     bind_result (slider_setValue 3 s3) annotate_page))))"

section \<open>Navigation\<close>

lemma update_slider_mid:
  assumes "data s = Some sh" "axis s = Some a" "0 < extent sh a" "sl_min (slice_slider s) = 0"
  shows "\<exists>s'. update_slider s = Inr s' \<and>
           sl_value (slice_slider s') = (int (extent sh a) - 1) div 2 \<and>
           sl_min (slice_slider s') = 0 \<and> sl_max (slice_slider s') = int (extent sh a) - 1 \<and>
           sl_enabled (slice_slider s') \<and>
           data s' = Some sh \<and> axis s' = Some a \<and> annotations s' = annotations s \<and>
           current_item s' = current_item s \<and> zoom_spin s' = zoom_spin s \<and>
           axis_combo s' = axis_combo s \<and>
           folder s' = folder s \<and> stdout s' = stdout s \<and> fs s' = fs s"
  using assms
  by (auto simp: update_slider_def slider_setMaximum_def slider_setValue_def bound_def
      on_slice_changed_def update_view_def slice_data_def bind_result_def Let_def extent_def
      split: sum.splits)

lemma update_view_loaded:
  assumes "data s = Some sh" "axis s = Some a" "0 < extent sh a" "sl_min (slice_slider s) = 0"
     "sl_max (slice_slider s) = int (extent sh a) - 1"
     "0 \<le> sl_value (slice_slider s)" "sl_value (slice_slider s) \<le> sl_max (slice_slider s)"
  shows "\<exists>s'. update_view s = Inr s' \<and> loaded s' sh a \<and> slice_slider s' = slice_slider s \<and>
           annotations s' = annotations s \<and> current_item s' = current_item s \<and>
           axis_combo s' = axis_combo s \<and>
           folder s' = folder s \<and> stdout s' = stdout s \<and> fs s' = fs s"
  using assms
  by (auto simp: loaded_def update_view_def slice_data_def bind_result_def)

lemma example_loaded_ok: "loaded example_loaded (10, 20, 30) Axial"
  by (simp add: loaded_def example_loaded_def extent_def)

lemma setValue_loaded:
  assumes "loaded s sh a"
  shows "\<exists>s'. slider_setValue i s = Inr s' \<and>
           sl_value (slice_slider s') = max 0 (min i (int (extent sh a) - 1)) \<and> loaded s' sh a"
  using assms
  by (auto simp: loaded_def slider_setValue_def bound_def on_slice_changed_def update_view_def
      slice_data_def bind_result_def Let_def)

text \<open>
  C3. With a volume on display, setting the slider to any integer \<open>i\<close> succeeds and the
  current index becomes \<open>max 0 (min i (extent - 1))\<close>: an out-of-range request is clamped,
  it neither wraps nor fails, and the canvas shows the slice at the clamped index. A wheel
  event steps the index by one in the same way.
\<close>

theorem setIndex_clamps:
  assumes "loaded s sh a"
  shows "(\<exists>s'. slider_setValue i s = Inr s' \<and>
            sl_value (slice_slider s') = max 0 (min i (int (extent sh a) - 1)) \<and> loaded s' sh a) \<and>
         (\<exists>s'. wheelEvent d s = Inr s' \<and> loaded s' sh a \<and>
            (sl_enabled (slice_slider s) \<longrightarrow>
               sl_value (slice_slider s') =
                 max 0 (min (sl_value (slice_slider s) + (if d > 0 then 1 else - 1))
                            (int (extent sh a) - 1))))"
proof
  show "\<exists>s'. slider_setValue i s = Inr s' \<and>
          sl_value (slice_slider s') = max 0 (min i (int (extent sh a) - 1)) \<and> loaded s' sh a"
    using assms by (rule setValue_loaded)
next
  let ?j = "max 0 (min (sl_value (slice_slider s) + (if d > 0 then 1 else - 1))
                       (int (extent sh a) - 1))"
  show "\<exists>s'. wheelEvent d s = Inr s' \<and> loaded s' sh a \<and>
          (sl_enabled (slice_slider s) \<longrightarrow> sl_value (slice_slider s') = ?j)"
  proof (cases "sl_enabled (slice_slider s)")
    case False
    with assms show ?thesis by (simp add: wheelEvent_def)
  next
    case True
    from setValue_loaded [OF assms, of ?j] obtain s' where
      S: "slider_setValue ?j s = Inr s'" "loaded s' sh a"
      and V: "sl_value (slice_slider s') = max 0 (min ?j (int (extent sh a) - 1))" by blast
    have "wheelEvent d s = slider_setValue ?j s"
      using assms True by (simp add: wheelEvent_def loaded_def Let_def)
    moreover have "max 0 (min ?j (int (extent sh a) - 1)) = ?j" by simp
    ultimately show ?thesis using S V by simp
  qed
qed

theorem setIndex_clamps_witness:
  "loaded example_loaded (10, 20, 30) Axial \<and>
   (\<exists>s'. slider_setValue 45 example_loaded = Inr s' \<and> sl_value (slice_slider s') = 29 \<and>
      loaded s' (10, 20, 30) Axial) \<and>
   sl_enabled (slice_slider example_loaded) \<and>
   (\<exists>s'. wheelEvent (- 120) example_loaded = Inr s' \<and> sl_value (slice_slider s') = 13)"
proof -
  have e: "sl_enabled (slice_slider example_loaded)" "sl_value (slice_slider example_loaded) = 14"
    by (simp_all add: example_loaded_def)
  from setIndex_clamps [OF example_loaded_ok, of 45 "- 120"] example_loaded_ok e
  show ?thesis by (auto simp: extent_def)
qed

text \<open>
  C6. With a volume held, switching to any axis whose dimension is not empty succeeds and
  leaves the current index at the midpoint \<open>(extent - 1) div 2\<close> of the new axis, which
  lies in \<open>[0, extent - 1]\<close>; the slider's range is the new axis's range.
\<close>

theorem axis_switch_resets_to_midpoint:
  assumes "data s = Some sh" "sl_min (slice_slider s) = 0" "0 < extent sh a"
  shows "\<exists>s'. on_axis_changed a s = Inr s' \<and>
           sl_value (slice_slider s') = (int (extent sh a) - 1) div 2 \<and>
           0 \<le> sl_value (slice_slider s') \<and> sl_value (slice_slider s') \<le> int (extent sh a) - 1 \<and>
           loaded s' sh a"
proof -
  let ?s1 = "s\<lparr>axis := Some a\<rparr>"
  from assms obtain s2 where U: "update_slider ?s1 = Inr s2"
    and V: "sl_value (slice_slider s2) = (int (extent sh a) - 1) div 2"
    and R: "sl_min (slice_slider s2) = 0" "sl_max (slice_slider s2) = int (extent sh a) - 1"
    and D: "data s2 = Some sh" "axis s2 = Some a"
    using update_slider_mid [of ?s1 sh a] by auto
  from assms(3) V have B: "0 \<le> sl_value (slice_slider s2)"
    "sl_value (slice_slider s2) \<le> sl_max (slice_slider s2)"
    using R by auto
  from update_view_loaded [OF D assms(3) R B] obtain s3 where
    W: "update_view s2 = Inr s3" "loaded s3 sh a" "slice_slider s3 = slice_slider s2" by auto
  have "data ?s1 \<noteq> None" using assms(1) by simp
  then have "on_axis_changed a s = Inr s3"
    unfolding on_axis_changed_def Let_def using U W(1) by (simp add: bind_result_def)
  with W V B R show ?thesis by auto
qed

theorem axis_switch_resets_to_midpoint_witness:
  "data example_loaded = Some (10, 20, 30) \<and> sl_min (slice_slider example_loaded) = 0 \<and>
   0 < extent (10, 20, 30) Coronal \<and>
   (\<exists>s'. on_axis_changed Coronal example_loaded = Inr s' \<and> sl_value (slice_slider s') = 9 \<and>
      loaded s' (10, 20, 30) Coronal)"
proof -
  have h: "data example_loaded = Some (10, 20, 30)" "sl_min (slice_slider example_loaded) = 0"
    "0 < extent (10, 20, 30) Coronal"
    by (simp_all add: example_loaded_def extent_def)
  from axis_switch_resets_to_midpoint [OF h] h show ?thesis by (auto simp: extent_def)
qed

text \<open>
  C2, as the code has it. While no volume is held, a slider change and a wheel event
  return normally and leave the whole state as it was, and an axis change returns normally
  and only records the chosen axis in \<^verbatim>\<open>self.axis\<close>: it touches neither the slider nor the
  canvas.
\<close>

theorem before_load_inert:
  assumes "data s = None"
  shows "on_slice_changed i s = Inr s \<and> wheelEvent d s = Inr s \<and>
         on_axis_changed a s = Inr (s\<lparr>axis := Some a\<rparr>)"
  using assms by (simp add: on_slice_changed_def wheelEvent_def on_axis_changed_def Let_def)

theorem before_load_inert_witness:
  "data (init Map.empty) = None \<and>
   on_slice_changed 3 (init Map.empty) = Inr (init Map.empty) \<and>
   wheelEvent 120 (init Map.empty) = Inr (init Map.empty) \<and>
   on_axis_changed Sagittal (init Map.empty) = Inr ((init Map.empty)\<lparr>axis := Some Sagittal\<rparr>)"
proof -
  have h: "data (init Map.empty) = None" by (simp add: init_def)
  from before_load_inert [OF h, of 3 120 Sagittal] h show ?thesis by simp
qed

text \<open>
  The claim C2 itself fails: before any volume is loaded, an axis change is not a no-op,
  it changes \<^verbatim>\<open>self.axis\<close>.
\<close>

theorem axis_change_before_load_changes_state:
  "data (init Map.empty) = None \<and>
   on_axis_changed Coronal (init Map.empty) \<noteq> Inr (init Map.empty) \<and>
   select_axis Coronal (init Map.empty)
     = Inr ((init Map.empty)\<lparr>axis := Some Coronal, axis_combo := Coronal\<rparr>)"
  by (simp add: select_axis_def on_axis_changed_def init_def Let_def)

text \<open>
  The zoom spin box is enabled from the start and its signal runs \<^verbatim>\<open>update_view\<close>
  without the \<^verbatim>\<open>self.data is not None\<close> guard of the other handlers: a zoom change before
  any volume is loaded raises.
\<close>

lemma zoom_before_load_raises:
  "zoom_setValue 150 (init disk) = Inl AttributeError \<and>
   zoom_setValue 150 ((init disk)\<lparr>axis := Some Coronal\<rparr>) = Inl TypeError"
  by (simp add: zoom_setValue_def update_view_def init_def)

section \<open>Loading the annotation file\<close>

text \<open>
  C9. When no file exists at \<^verbatim>\<open>annotations.json\<close> in the opened folder, loading returns
  normally and changes nothing: the store stays as it was (empty in a fresh session) and
  nothing is printed.
\<close>

theorem load_missing_file:
  assumes "folder s = Some dir" "fs s (path_join dir ''annotations.json'') = None"
  shows "load_existing_annotations w s = Inr s"
  using assms by (simp add: load_existing_annotations_def)

theorem load_missing_file_witness:
  "folder example_loaded = Some ''/scans'' \<and>
   fs example_loaded (path_join ''/scans'' ''annotations.json'') = None \<and>
   load_existing_annotations example_world example_loaded = Inr example_loaded \<and>
   annotations example_loaded = JObj [] \<and> stdout example_loaded = []"
proof -
  have h: "folder example_loaded = Some ''/scans''"
    "fs example_loaded (path_join ''/scans'' ''annotations.json'') = None"
    by (simp_all add: example_loaded_def)
  from load_missing_file [OF h, of example_world] h show ?thesis
    by (simp add: example_loaded_def)
qed

section \<open>Confirming pages\<close>

lemma axis_text_inj: "axis_text a = axis_text b \<longleftrightarrow> a = b"
  by (cases a; cases b) simp_all

lemma map_of_dict_set: "map_of (dict_set kvs k v) k' = (if k' = k then Some v else map_of kvs k')"
  by (induction kvs) auto

lemma keys_dict_set: "fst ` set (dict_set kvs k v) = insert k (fst ` set kvs)"
  by (induction kvs) auto

lemma list_all_dict_set: "list_all P kvs \<Longrightarrow> P (k, v) \<Longrightarrow> list_all P (dict_set kvs k v)"
  by (induction kvs) auto

lemma index_list_ints: "index_list (JArr xs) \<Longrightarrow> \<exists>ys. xs = map JInt ys"
proof (induction xs)
  case Nil
  then show ?case by simp
next
  case (Cons x xs)
  then obtain ys where "xs = map JInt ys" by auto
  moreover from Cons.prems obtain n where "x = JInt n" by (cases x) auto
  ultimately have "x # xs = map JInt (n # ys)" by simp
  then show ?case by (rule exI)
qed

lemma index_list_map_JInt: "index_list (JArr (map JInt ys))"
  by (induction ys) auto

lemma int_of_map_JInt: "map int_of (map JInt ys) = ys"
  by (induction ys) auto

lemma intlike_map_JInt: "list_all is_intlike (map JInt ys)"
  by (induction ys) auto

lemma insort_key_JInt: "insort_key int_of (JInt y) (map JInt ys) = map JInt (insort y ys)"
  by (induction ys) auto

lemma sort_key_JInt: "sort_key int_of (map JInt ys) = map JInt (sort ys)"
  by (induction ys) (auto simp: insort_key_JInt)

lemma contains_int_JInt: "py_contains_int (JArr (map JInt ys)) i = Inr (i \<in> set ys)"
  by (auto simp: image_iff)

lemma wf_empty_record: "wf_record empty_record" "sorted_record empty_record"
  by (simp_all add: empty_record_def)

lemma sort_snoc_set:
  assumes "sorted_wrt (<) xs" "i \<notin> set xs"
  shows "sort (xs @ [i]) = sorted_list_of_set (insert i (set xs))"
proof -
  have "distinct (xs @ [i])" using assms by (simp add: strict_sorted_iff)
  then have "distinct (sort (xs @ [i]))" by simp
  then have "sorted_list_of_set (set (sort (xs @ [i]))) = sort (xs @ [i])"
    by (intro sorted_list_of_set.idem_if_sorted_distinct) simp_all
  then show ?thesis by simp
qed

lemma confirm_step:
  assumes W: "wf_store A" and S: "sorted_store A"
  shows "\<exists>A' xs. described_pages A f a = Inr (JArr (map JInt xs)) \<and> sorted_wrt (<) xs \<and>
           confirm A f (axis_text a) i = Inr A' \<and> wf_store A' \<and> sorted_store A' \<and>
           described_pages A' f a = Inr (JArr (map JInt (sorted_list_of_set (insert i (set xs)))))"
proof -
  from W obtain kvs where A: "A = JObj kvs" by (cases A) auto
  define kvs1 where "kvs1 = (if f \<in> fst ` set kvs then kvs else dict_set kvs f empty_record)"
  have W1: "list_all (\<lambda>kv. wf_record (snd kv)) kvs1" and S1: "list_all (\<lambda>kv. sorted_record (snd kv)) kvs1"
    using W S A by (auto simp: kvs1_def wf_empty_record intro!: list_all_dict_set)
  have "f \<in> fst ` set kvs1" by (simp add: kvs1_def keys_dict_set)
  then obtain r where R: "map_of kvs1 f = Some r"
    by (metis map_of_eq_None_iff not_Some_eq)
  then have Rin: "(f, r) \<in> set kvs1" by (rule map_of_SomeD)
  have R0: "(case map_of kvs f of None \<Rightarrow> empty_record | Some v \<Rightarrow> v) = r"
  proof (cases "f \<in> fst ` set kvs")
    case True
    then show ?thesis using R by (simp add: kvs1_def)
  next
    case False
    then have "map_of kvs f = None" by (simp add: map_of_eq_None_iff)
    moreover from False have "r = empty_record" using R by (simp add: kvs1_def map_of_dict_set)
    ultimately show ?thesis by simp
  qed
  from W1 Rin have Wr: "wf_record r" by (auto simp: list_all_iff)
  from S1 Rin have Sr: "sorted_record r" by (auto simp: list_all_iff)
  from Wr obtain rs where r: "r = JObj rs" by (cases r) auto
  from Wr r obtain p where P: "map_of rs (axis_text a) = Some p" and Ip: "index_list p"
    by (cases a) (auto split: option.splits)
  from P have "(axis_text a, p) \<in> set rs" by (rule map_of_SomeD)
  with Sr r have Sp: "sorted_pages p" by (auto simp: list_all_iff)
  from Ip obtain ps where "p = JArr ps" by (cases p) auto
  with Ip obtain xs where p: "p = JArr (map JInt xs)" using index_list_ints by blast
  from Sp p have Sx: "sorted_wrt (<) xs" by (simp add: comp_def)
  have D: "described_pages A f a = Inr (JArr (map JInt xs))"
    by (simp add: described_pages_def A bind_result_def R0 r P p)
  have pre: "py_contains_str A f = Inr (f \<in> fst ` set kvs)" by (simp add: A)
  have anns: "(if f \<in> fst ` set kvs then Inr A else py_setitem A f empty_record) = Inr (JObj kvs1)"
    by (simp add: A kvs1_def)
  show ?thesis
  proof (cases "i \<in> set xs")
    case True
    have "confirm A f (axis_text a) i = Inr (JObj kvs1)"
      unfolding confirm_def
      by (simp add: pre anns bind_result_def R r P p contains_int_JInt True del: py_contains_int.simps)
    moreover have "described_pages (JObj kvs1) f a = Inr (JArr (map JInt xs))"
      by (simp add: described_pages_def bind_result_def R r P p)
    moreover have "sorted_list_of_set (insert i (set xs)) = xs"
      using True Sx by (simp add: insert_absorb strict_sorted_iff sorted_list_of_set.idem_if_sorted_distinct)
    ultimately show ?thesis using D Sx W1 S1 by auto
  next
    case False
    let ?ys = "sort (xs @ [i])"
    let ?p2 = "JArr (map JInt ?ys)"
    let ?r1 = "JObj (dict_set rs (axis_text a) ?p2)"
    let ?A' = "JObj (dict_set kvs1 f ?r1)"
    have srt: "py_sort (JArr (map JInt xs @ [JInt i])) = Inr ?p2"
      using sort_key_JInt [of "xs @ [i]"] intlike_map_JInt [of "xs @ [i]"] by simp
    have C: "confirm A f (axis_text a) i = Inr ?A'"
      unfolding confirm_def
      by (simp add: pre anns bind_result_def R r P p contains_int_JInt False srt
          del: py_contains_int.simps py_sort.simps)
    have ys: "?ys = sorted_list_of_set (insert i (set xs))"
      using Sx False by (rule sort_snoc_set)
    have "sorted_wrt (<) ?ys"
      using Sx False by (simp add: strict_sorted_iff)
    then have Sp2: "sorted_pages ?p2"
      by (simp add: comp_def index_list_map_JInt del: index_list.simps)
    have Wr1: "wf_record ?r1"
      using Wr r by (auto simp: map_of_dict_set axis_text_inj index_list_map_JInt simp del: index_list.simps)
    have Sr1: "sorted_record ?r1"
      using Sr r Sp2 by (auto intro!: list_all_dict_set simp del: sorted_pages.simps)
    have W': "wf_store ?A'" using W1 Wr1 by (auto intro!: list_all_dict_set simp del: wf_record.simps)
    have S': "sorted_store ?A'" using S1 Sr1 by (auto intro!: list_all_dict_set simp del: sorted_record.simps)
    have D': "described_pages ?A' f a = Inr ?p2"
      by (simp add: described_pages_def bind_result_def map_of_dict_set)
    show ?thesis using D Sx C W' S' D' ys by auto
  qed
qed


lemma confirm_twice:
  assumes C: "confirm A f a i = Inr A'"
  shows "confirm A' f a i = Inr A'"
proof -
  from C obtain kvs where A: "A = JObj kvs"
    by (cases A) (auto simp: confirm_def bind_result_def split: if_splits)
  define kvs1 where "kvs1 = (if f \<in> fst ` set kvs then kvs else dict_set kvs f empty_record)"
  have K1: "f \<in> fst ` set kvs1" by (simp add: kvs1_def keys_dict_set)
  then obtain r where R: "map_of kvs1 f = Some r"
    by (metis map_of_eq_None_iff not_Some_eq)
  have pre: "py_contains_str A f = Inr (f \<in> fst ` set kvs)" by (simp add: A)
  have anns: "(if f \<in> fst ` set kvs then Inr A else py_setitem A f empty_record) = Inr (JObj kvs1)"
    by (simp add: A kvs1_def)
  have pre1: "py_contains_str (JObj kvs1) f = Inr True" using K1 by simp
  from C obtain rs where r: "r = JObj rs"
    unfolding confirm_def by (cases r) (simp_all add: pre anns bind_result_def R)
  from C obtain p where P: "map_of rs a = Some p"
    unfolding confirm_def by (cases "map_of rs a") (simp_all add: pre anns bind_result_def R r)
  from C obtain xs where p: "p = JArr xs"
    unfolding confirm_def by (cases p) (simp_all add: pre anns bind_result_def R r P)
  show ?thesis
  proof (cases "\<exists>x \<in> set xs. is_intlike x \<and> int_of x = i")
    case True
    from C True have "A' = JObj kvs1"
      unfolding confirm_def by (simp add: pre anns bind_result_def R r P p)
    moreover have "confirm (JObj kvs1) f a i = Inr (JObj kvs1)"
      unfolding confirm_def using True
      by (simp add: pre1 bind_result_def R r P p del: py_contains_str.simps)
    ultimately show ?thesis by simp
  next
    case False
    let ?p2 = "JArr (sort_key int_of (xs @ [JInt i]))"
    let ?r1 = "JObj (dict_set rs a ?p2)"
    let ?kvs2 = "dict_set kvs1 f ?r1"
    from C False have I: "list_all is_intlike (xs @ [JInt i])"
      unfolding confirm_def
      by (simp add: pre anns bind_result_def R r P p split: if_splits)
    from C False I have A': "A' = JObj ?kvs2"
      unfolding confirm_def by (simp add: pre anns bind_result_def R r P p)
    have "py_contains_str (JObj ?kvs2) f = Inr True" by (simp add: keys_dict_set)
    moreover have "py_contains_int ?p2 i = Inr True" by auto
    ultimately have "confirm (JObj ?kvs2) f a i = Inr (JObj ?kvs2)"
      unfolding confirm_def
      by (simp add: bind_result_def map_of_dict_set del: py_contains_str.simps py_contains_int.simps)
    with A' show ?thesis by simp
  qed
qed

lemma display_lines_record:
  "\<exists>ls. display_lines (JObj rs) as = Inr ls"
  by (induction as) (auto simp: display_line_def bind_result_def)

lemma wf_store_get:
  assumes "list_all (\<lambda>kv. wf_record (snd kv)) kvs"
  shows "wf_record (case map_of kvs f of None \<Rightarrow> empty_record | Some v \<Rightarrow> v)"
proof (cases "map_of kvs f")
  case None then show ?thesis by (simp add: empty_record_def)
next
  case (Some v)
  then have "(f, v) \<in> set kvs" by (rule map_of_SomeD)
  with assms have "wf_record v" by (auto simp: list_all_iff)
  with Some show ?thesis by simp
qed

lemma display_wf:
  assumes "wf_store (annotations s)"
  shows "\<exists>d. update_annotation_display s = Inr (s\<lparr>annotation_display := d\<rparr>)"
proof (cases "current_item s")
  case None
  have "s = s\<lparr>annotation_display := annotation_display s\<rparr>" by simp
  with None show ?thesis unfolding update_annotation_display_def
    by (metis option.simps(4))
next
  case (Some f)
  from assms obtain kvs where A: "annotations s = JObj kvs"
    and W: "list_all (\<lambda>kv. wf_record (snd kv)) kvs"
    by (cases "annotations s") auto
  from wf_store_get [OF W, of f] obtain rs where
    R: "(case map_of kvs f of None \<Rightarrow> empty_record | Some v \<Rightarrow> v) = JObj rs"
    by (cases "case map_of kvs f of None \<Rightarrow> empty_record | Some v \<Rightarrow> v") auto
  obtain ls where L: "display_lines (JObj rs) [Axial, Coronal, Sagittal] = Inr ls"
    using display_lines_record by blast
  have "update_annotation_display s = Inr (s\<lparr>annotation_display := Some (f, ls)\<rparr>)"
    unfolding update_annotation_display_def
    by (simp add: Some A R L bind_result_def del: display_lines.simps)
  then show ?thesis by blast
qed

lemma display_twice:
  assumes "update_annotation_display s = Inr s1"
  shows "update_annotation_display s1 = Inr s1"
proof (cases "current_item s")
  case None
  with assms show ?thesis by (simp add: update_annotation_display_def)
next
  case (Some f)
  with assms obtain d where D: "s1 = s\<lparr>annotation_display := d\<rparr>"
    and U: "update_annotation_display s = Inr (s\<lparr>annotation_display := d\<rparr>)"
    by (auto simp: update_annotation_display_def bind_result_def split: sum.splits)
  have "update_annotation_display s1 = Inr (s1\<lparr>annotation_display := d\<rparr>)"
    using U Some unfolding D update_annotation_display_def
    by (auto simp: bind_result_def split: sum.splits)
  then show ?thesis by (simp add: D)
qed

lemma annotate_twice:
  assumes "annotate_page s = Inr s1"
  shows "annotate_page s1 = Inr s1"
proof (cases "current_item s")
  case None
  with assms show ?thesis by (simp add: annotate_page_def)
next
  case (Some f)
  let ?a = "axis_text (axis_combo s)" and ?i = "sl_value (slice_slider s)"
  from assms Some obtain A' where C: "confirm (annotations s) f ?a ?i = Inr A'"
    and U: "update_annotation_display (s\<lparr>annotations := A'\<rparr>) = Inr s1"
    by (auto simp: annotate_page_def bind_result_def split: sum.splits)
  from U have F: "current_item s1 = Some f" "axis_combo s1 = axis_combo s"
    "slice_slider s1 = slice_slider s" "annotations s1 = A'"
    using Some
    by (auto simp: update_annotation_display_def bind_result_def split: sum.splits)
  have "s1\<lparr>annotations := A'\<rparr> = s1" using F(4) by simp
  moreover have "update_annotation_display s1 = Inr s1" using U by (rule display_twice)
  ultimately have "update_annotation_display (s1\<lparr>annotations := A'\<rparr>) = Inr s1"
    by (simp only:)
  then show ?thesis
    using confirm_twice [OF C] F(1,2,3,4) by (simp add: annotate_page_def bind_result_def)
qed

lemma example_listing:
  "sort (filter (\<lambda>f. suffix ''.nii'' f \<or> suffix ''.nii.gz'' f) (listdir example_world ''/scans''))
     = [''a.nii'', ''b.nii'']"
  by code_simp

lemma example_opened: "open_folder example_world ''/scans'' (init Map.empty) = Inr example_loaded"
  unfolding open_folder_def load_files_def Let_def example_listing
  by (simp add: example_world_def init_def example_loaded_def on_file_changed_def path_join_def
      update_slider_def slider_setMaximum_def slider_setValue_def bound_def on_slice_changed_def
      update_view_def slice_data_def extent_def bind_result_def Let_def
      update_annotation_display_def display_line_def empty_record_def
      load_existing_annotations_def)

lemma example_store_ok: "wf_store (annotations example_loaded)" "sorted_store (annotations example_loaded)"
  by (simp_all add: example_loaded_def)

lemma annotate_wf:
  assumes "wf_store (annotations s)" "sorted_store (annotations s)"
  shows "\<exists>s'. annotate_page s = Inr s' \<and> wf_store (annotations s') \<and> sorted_store (annotations s')"
proof (cases "current_item s")
  case None
  with assms show ?thesis by (simp add: annotate_page_def)
next
  case (Some f)
  from confirm_step [OF assms, of f "axis_combo s" "sl_value (slice_slider s)"] obtain A' where
    C: "confirm (annotations s) f (axis_text (axis_combo s)) (sl_value (slice_slider s)) = Inr A'"
    and W: "wf_store A'" "sorted_store A'" by blast
  from display_wf [of "s\<lparr>annotations := A'\<rparr>"] W(1) obtain d where
    "update_annotation_display (s\<lparr>annotations := A'\<rparr>) = Inr (s\<lparr>annotations := A', annotation_display := d\<rparr>)"
    by auto
  with C Some W show ?thesis by (simp add: annotate_page_def bind_result_def)
qed

text \<open>
  C4. Confirming is idempotent: whenever \<^verbatim>\<open>annotate_page\<close> returns, running it again on the
  resulting state returns that very state, so the store (and the panel) after two
  confirmations of the same file, axis and index is the one after the first. On a store of
  the shape the program builds, the first confirmation does return.
\<close>

theorem confirm_idempotent:
  "(\<forall>s1. annotate_page s = Inr s1 \<longrightarrow> annotate_page s1 = Inr s1) \<and>
   (wf_store (annotations s) \<and> sorted_store (annotations s) \<longrightarrow>
      (\<exists>s1. annotate_page s = Inr s1 \<and> annotate_page s1 = Inr s1))"
proof (intro conjI allI impI)
  fix s1 assume "annotate_page s = Inr s1"
  then show "annotate_page s1 = Inr s1" by (rule annotate_twice)
next
  assume "wf_store (annotations s) \<and> sorted_store (annotations s)"
  then obtain s1 where "annotate_page s = Inr s1" using annotate_wf by blast
  then show "\<exists>s1. annotate_page s = Inr s1 \<and> annotate_page s1 = Inr s1"
    using annotate_twice by blast
qed

lemma example_annotate:
  "annotate_page example_loaded =
     Inr (example_loaded\<lparr>annotations :=
            JObj [(''a.nii'', JObj [(''axial'', JArr [JInt 14]), (''coronal'', JArr []),
                                    (''sagittal'', JArr [])])],
          annotation_display :=
            Some (''a.nii'', [(''axial'', Pages (JArr [JInt 14])), (''coronal'', NA),
                              (''sagittal'', NA)])\<rparr>)"
  by (simp add: annotate_page_def confirm_def example_loaded_def bind_result_def empty_record_def
      update_annotation_display_def display_line_def)

theorem confirm_idempotent_witness:
  "wf_store (annotations example_loaded) \<and> sorted_store (annotations example_loaded) \<and>
   (\<exists>s1. annotate_page example_loaded = Inr s1 \<and> annotate_page s1 = Inr s1 \<and>
      annotations s1 = JObj [(''a.nii'', JObj [(''axial'', JArr [JInt 14]), (''coronal'', JArr []),
                                               (''sagittal'', JArr [])])])"
  using confirm_idempotent [of example_loaded] example_store_ok example_annotate by auto

lemma setValue_frame:
  assumes "loaded s sh a"
  shows "\<exists>s'. slider_setValue i s = Inr s' \<and>
           sl_value (slice_slider s') = max 0 (min i (int (extent sh a) - 1)) \<and> loaded s' sh a \<and>
           annotations s' = annotations s \<and> current_item s' = current_item s \<and>
           axis_combo s' = axis_combo s"
  using assms
  by (auto simp: loaded_def slider_setValue_def bound_def on_slice_changed_def update_view_def
      slice_data_def bind_result_def Let_def)

lemma annotate_step:
  assumes W: "wf_store (annotations s)" and S: "sorted_store (annotations s)"
    and C: "current_item s = Some f"
  shows "\<exists>s' xs. described_pages (annotations s) f (axis_combo s) = Inr (JArr (map JInt xs)) \<and>
           annotate_page s = Inr s' \<and> wf_store (annotations s') \<and> sorted_store (annotations s') \<and>
           described_pages (annotations s') f (axis_combo s) =
             Inr (JArr (map JInt (sorted_list_of_set (insert (sl_value (slice_slider s)) (set xs))))) \<and>
           current_item s' = current_item s \<and> axis_combo s' = axis_combo s \<and>
           (\<forall>sh a. loaded s sh a \<longrightarrow> loaded s' sh a)"
proof -
  from confirm_step [OF W S, of f "axis_combo s" "sl_value (slice_slider s)"] obtain A' xs where
    D: "described_pages (annotations s) f (axis_combo s) = Inr (JArr (map JInt xs))"
    and X: "confirm (annotations s) f (axis_text (axis_combo s)) (sl_value (slice_slider s)) = Inr A'"
    and W': "wf_store A'" "sorted_store A'"
    and D': "described_pages A' f (axis_combo s) =
       Inr (JArr (map JInt (sorted_list_of_set (insert (sl_value (slice_slider s)) (set xs)))))"
    by blast
  from display_wf [of "s\<lparr>annotations := A'\<rparr>"] W'(1) obtain d where
    U: "update_annotation_display (s\<lparr>annotations := A'\<rparr>)
          = Inr (s\<lparr>annotations := A', annotation_display := d\<rparr>)"
    by auto
  let ?s' = "s\<lparr>annotations := A', annotation_display := d\<rparr>"
  have "annotate_page s = Inr ?s'" using X U C by (simp add: annotate_page_def bind_result_def)
  moreover have "\<forall>sh a. loaded s sh a \<longrightarrow> loaded ?s' sh a" by (simp add: loaded_def)
  ultimately show ?thesis using D W' D' by (intro exI [of _ ?s'] exI [of _ xs]) simp
qed

lemma annotate_pages_sorted:
  assumes "wf_store (annotations s)" "sorted_store (annotations s)" "current_item s = Some f"
    "axis_combo s = a" "loaded s sh a" "\<forall>i \<in> set is. 0 \<le> i \<and> i < int (extent sh a)"
  shows "\<exists>s' xs. described_pages (annotations s) f a = Inr (JArr (map JInt xs)) \<and>
           annotate_pages is s = Inr s' \<and> wf_store (annotations s') \<and>
           sorted_store (annotations s') \<and>
           described_pages (annotations s') f a =
             Inr (JArr (map JInt (sorted_list_of_set (set xs \<union> set is))))"
  using assms
proof (induction "is" arbitrary: s)
  case Nil
  from annotate_step [OF Nil(1,2,3)] Nil(4) obtain xs where
    D: "described_pages (annotations s) f a = Inr (JArr (map JInt xs))" by blast
  from confirm_step [OF Nil(1,2), of f a 0] D have "sorted_wrt (<) xs"
    by (auto simp: inj_map_eq_map inj_on_def)
  then have "sorted_list_of_set (set xs) = xs"
    by (simp add: strict_sorted_iff sorted_list_of_set.idem_if_sorted_distinct)
  with D Nil show ?case by (intro exI [of _ s] exI [of _ xs]) simp
next
  case (Cons i "is")
  from Cons.prems(6) have r: "0 \<le> i" "i < int (extent sh a)"
    and rs: "\<forall>i \<in> set is. 0 \<le> i \<and> i < int (extent sh a)" by auto
  from setValue_frame [OF Cons.prems(5), of i] obtain s1 where
    V: "slider_setValue i s = Inr s1" "sl_value (slice_slider s1) = max 0 (min i (int (extent sh a) - 1))"
    and L1: "loaded s1 sh a" and F1: "annotations s1 = annotations s"
      "current_item s1 = current_item s" "axis_combo s1 = axis_combo s"
    by blast
  from V(2) r have v: "sl_value (slice_slider s1) = i" by simp
  have p1: "wf_store (annotations s1)" "sorted_store (annotations s1)" "current_item s1 = Some f"
    using Cons.prems F1 by simp_all
  from annotate_step [OF p1] obtain s2 xs where
    D: "described_pages (annotations s1) f (axis_combo s1) = Inr (JArr (map JInt xs))"
    and A: "annotate_page s1 = Inr s2" and W2: "wf_store (annotations s2)" "sorted_store (annotations s2)"
    and D2: "described_pages (annotations s2) f (axis_combo s1) =
       Inr (JArr (map JInt (sorted_list_of_set (insert (sl_value (slice_slider s1)) (set xs)))))"
    and F2: "current_item s2 = current_item s1" "axis_combo s2 = axis_combo s1"
    and L2: "\<forall>sh a. loaded s1 sh a \<longrightarrow> loaded s2 sh a"
    by blast
  have ac: "axis_combo s1 = a" using F1 Cons.prems(4) by simp
  have p2: "current_item s2 = Some f" "axis_combo s2 = a" "loaded s2 sh a"
    using F2 p1 ac L1 L2 by (simp, simp, blast)
  from Cons.IH [OF W2 p2 rs] obtain s' ys where
    E: "described_pages (annotations s2) f a = Inr (JArr (map JInt ys))"
    and P: "annotate_pages is s2 = Inr s'" and W': "wf_store (annotations s')" "sorted_store (annotations s')"
    and D': "described_pages (annotations s') f a =
       Inr (JArr (map JInt (sorted_list_of_set (set ys \<union> set is))))"
    by blast
  from D2 E have "map JInt ys = map JInt (sorted_list_of_set (insert i (set xs)))"
    by (simp add: ac v)
  then have "ys = sorted_list_of_set (insert i (set xs))"
    by (simp add: inj_map_eq_map inj_on_def)
  then have "set ys = insert i (set xs)"
    by (simp only: set_sorted_list_of_set [OF finite_insert [THEN iffD2, OF finite_set]])
  then have "set ys \<union> set is = set xs \<union> set (i # is)" by auto
  with D' have "described_pages (annotations s') f a =
      Inr (JArr (map JInt (sorted_list_of_set (set xs \<union> set (i # is)))))" by simp
  moreover have "annotate_pages (i # is) s = Inr s'"
    using V(1) A P by (simp add: bind_result_def)
  moreover have "described_pages (annotations s) f a = Inr (JArr (map JInt xs))"
    using D F1 ac by simp
  ultimately show ?case using W' by blast
qed

text \<open>
  C5, as the code has it. On a store whose index lists all ascend strictly (sorted, no
  duplicate), confirming a page returns, leaves every list strictly ascending, and makes
  the list of the current file and axis the ascending enumeration of the indices it held
  together with the confirmed one. Confirming a sequence of indices of the volume one
  after the other, in any order, leaves that list equal to the ascending enumeration of
  the indices it held before together with the confirmed ones: \<open>[5, 1, 3]\<close> on an empty
  list gives \<open>[1, 3, 5]\<close>.
\<close>

theorem confirm_keeps_lists_sorted:
  assumes "wf_store (annotations s)" "sorted_store (annotations s)" "current_item s = Some f"
  shows "(\<exists>s' xs. described_pages (annotations s) f (axis_combo s) = Inr (JArr (map JInt xs)) \<and>
            annotate_page s = Inr s' \<and> wf_store (annotations s') \<and>
            sorted_store (annotations s') \<and>
            described_pages (annotations s') f (axis_combo s) =
              Inr (JArr (map JInt
                (sorted_list_of_set (insert (sl_value (slice_slider s)) (set xs)))))) \<and>
         (loaded s sh (axis_combo s) \<and> (\<forall>i \<in> set is. 0 \<le> i \<and> i < int (extent sh (axis_combo s))) \<longrightarrow>
            (\<exists>s' xs. described_pages (annotations s) f (axis_combo s) = Inr (JArr (map JInt xs)) \<and>
               annotate_pages is s = Inr s' \<and> wf_store (annotations s') \<and>
               sorted_store (annotations s') \<and>
               described_pages (annotations s') f (axis_combo s) =
                 Inr (JArr (map JInt (sorted_list_of_set (set xs \<union> set is))))))"
proof (intro conjI impI)
  show "\<exists>s' xs. described_pages (annotations s) f (axis_combo s) = Inr (JArr (map JInt xs)) \<and>
            annotate_page s = Inr s' \<and> wf_store (annotations s') \<and>
            sorted_store (annotations s') \<and>
            described_pages (annotations s') f (axis_combo s) =
              Inr (JArr (map JInt
                (sorted_list_of_set (insert (sl_value (slice_slider s)) (set xs)))))"
    using annotate_step [OF assms] by blast
next
  assume "loaded s sh (axis_combo s) \<and> (\<forall>i \<in> set is. 0 \<le> i \<and> i < int (extent sh (axis_combo s)))"
  then show "\<exists>s' xs. described_pages (annotations s) f (axis_combo s) = Inr (JArr (map JInt xs)) \<and>
               annotate_pages is s = Inr s' \<and> wf_store (annotations s') \<and>
               sorted_store (annotations s') \<and>
               described_pages (annotations s') f (axis_combo s) =
                 Inr (JArr (map JInt (sorted_list_of_set (set xs \<union> set is))))"
    using annotate_pages_sorted [OF assms refl, of sh "is"] by blast
qed

lemma example_described: "described_pages (annotations example_loaded) ''a.nii'' Axial = Inr (JArr [])"
  by (simp add: described_pages_def example_loaded_def bind_result_def empty_record_def)

theorem confirm_keeps_lists_sorted_witness:
  "wf_store (annotations example_loaded) \<and> sorted_store (annotations example_loaded) \<and>
   current_item example_loaded = Some ''a.nii'' \<and>
   loaded example_loaded (10, 20, 30) (axis_combo example_loaded) \<and>
   extent (10, 20, 30) (axis_combo example_loaded) = 30 \<and>
   (\<exists>s'. annotate_page example_loaded = Inr s' \<and>
      described_pages (annotations s') ''a.nii'' Axial = Inr (JArr [JInt 14])) \<and>
   (\<exists>s'. annotate_pages [5, 1, 3] example_loaded = Inr s' \<and> sorted_store (annotations s') \<and>
      described_pages (annotations s') ''a.nii'' Axial = Inr (JArr [JInt 1, JInt 3, JInt 5]))"
proof -
  have c: "current_item example_loaded = Some ''a.nii''" "axis_combo example_loaded = Axial"
    "sl_value (slice_slider example_loaded) = 14"
    by (simp_all add: example_loaded_def)
  have l: "loaded example_loaded (10, 20, 30) (axis_combo example_loaded)"
    using example_loaded_ok by (simp add: c)
  have r: "\<forall>i \<in> set [5, 1, 3]. 0 \<le> i \<and> i < int (extent (10, 20, 30) (axis_combo example_loaded))"
    by (simp add: c extent_def)
  note T = confirm_keeps_lists_sorted [OF example_store_ok c(1), of "(10, 20, 30)" "[5, 1, 3]"]
  from T obtain s1 xs where
    D: "described_pages (annotations example_loaded) ''a.nii'' (axis_combo example_loaded)
          = Inr (JArr (map JInt xs))"
    and A: "annotate_page example_loaded = Inr s1"
    and D1: "described_pages (annotations s1) ''a.nii'' (axis_combo example_loaded) =
       Inr (JArr (map JInt (sorted_list_of_set
         (insert (sl_value (slice_slider example_loaded)) (set xs)))))"
    by blast
  from D have x: "xs = []" by (simp add: example_described c)
  have one: "described_pages (annotations s1) ''a.nii'' Axial = Inr (JArr [JInt 14])"
    using D1 by (simp add: x c)
  from T l r obtain s2 ys where
    E: "described_pages (annotations example_loaded) ''a.nii'' (axis_combo example_loaded)
          = Inr (JArr (map JInt ys))"
    and P: "annotate_pages [5, 1, 3] example_loaded = Inr s2" and S: "sorted_store (annotations s2)"
    and D2: "described_pages (annotations s2) ''a.nii'' (axis_combo example_loaded) =
       Inr (JArr (map JInt (sorted_list_of_set (set ys \<union> set [5, 1, 3]))))"
    by blast
  from E have y: "ys = []" by (simp add: example_described c)
  have "sorted_list_of_set (set [5, 1, 3 :: int]) = [1, 3, 5]"
    by (simp add: sorted_list_of_set_sort_remdups)
  then have three: "described_pages (annotations s2) ''a.nii'' Axial
      = Inr (JArr [JInt 1, JInt 3, JInt 5])"
    using D2 by (simp add: y c)
  have e: "extent (10, 20, 30) (axis_combo example_loaded) = 30" by (simp add: c extent_def)
  from example_store_ok c(1) l e A one P S three show ?thesis by blast
qed

text \<open>
  The claim C5 itself fails on a store that was loaded from a file whose lists are not
  sorted: confirming page 5 leaves the axial list \<open>[5, 1]\<close> as it is, and confirming
  page 3 turns the coronal list \<open>[1, 1]\<close> into \<open>[1, 1, 3]\<close>, duplicate kept.
\<close>

theorem confirm_keeps_unsorted_lists:
  "\<not> isl unsorted_file_session \<and>
   annotations (projr unsorted_file_session)
     = JObj [(''a.nii'', JObj [(''axial'', JArr [JInt 5, JInt 1]),
                               (''coronal'', JArr [JInt 1, JInt 1, JInt 3]),
                               (''sagittal'', JArr [])])] \<and>
   wf_store (annotations (projr unsorted_file_session)) \<and>
   \<not> sorted_store (annotations (projr unsorted_file_session))"
  unfolding unsorted_file_session_def unsorted_disk_def by code_simp

section \<open>Selecting a file\<close>

text \<open>
  C10. Selecting a file whose volume decodes, with a non-empty dimension along the
  selected axis, returns normally and leaves the current index at \<open>(extent - 1) div 2\<close>
  of the new volume along that axis, whatever the index was before; the axis selection is
  unchanged and the slider ranges over the new volume's indices.
\<close>

theorem file_change_resets_to_midpoint:
  assumes "folder s = Some dir" "nib_load w (path_join dir f) = Some sh"
    "0 < extent sh (axis_combo s)" "sl_min (slice_slider s) = 0" "wf_store (annotations s)"
  shows "\<exists>s'. on_file_changed w (Some f) s = Inr s' \<and>
           sl_value (slice_slider s') = (int (extent sh (axis_combo s)) - 1) div 2 \<and>
           axis_combo s' = axis_combo s \<and> loaded s' sh (axis_combo s)"
proof -
  let ?a = "axis_combo s"
  let ?s1 = "s\<lparr>data := Some sh, axis := Some ?a\<rparr>"
  from assms obtain s2 where U: "update_slider ?s1 = Inr s2"
    and V: "sl_value (slice_slider s2) = (int (extent sh ?a) - 1) div 2"
    and R: "sl_min (slice_slider s2) = 0" "sl_max (slice_slider s2) = int (extent sh ?a) - 1"
    and D: "data s2 = Some sh" "axis s2 = Some ?a" and A: "annotations s2 = annotations s"
    and X: "axis_combo s2 = ?a"
    using update_slider_mid [of ?s1 sh ?a] by auto
  from assms(3) V have B: "0 \<le> sl_value (slice_slider s2)"
    "sl_value (slice_slider s2) \<le> sl_max (slice_slider s2)"
    using R by auto
  from update_view_loaded [OF D assms(3) R B] obtain s3 where
    W: "update_view s2 = Inr s3" "loaded s3 sh ?a" "slice_slider s3 = slice_slider s2"
       "annotations s3 = annotations s2" "axis_combo s3 = axis_combo s2" by auto
  from display_wf [of s3] assms(5) A W(4) obtain d where
    P: "update_annotation_display s3 = Inr (s3\<lparr>annotation_display := d\<rparr>)" by auto
  have "on_file_changed w (Some f) s = Inr (s3\<lparr>annotation_display := d\<rparr>)"
    using assms(1,2) U W(1) P by (simp add: on_file_changed_def bind_result_def)
  moreover have "loaded (s3\<lparr>annotation_display := d\<rparr>) sh ?a"
    using W(2) by (simp add: loaded_def)
  ultimately show ?thesis using V W(3,5) X by auto
qed

theorem file_change_resets_to_midpoint_witness:
  "folder example_confirmed = Some ''/scans'' \<and>
   nib_load example_world (path_join ''/scans'' ''b.nii'') = Some (4, 6, 8) \<and>
   0 < extent (4, 6, 8) (axis_combo example_confirmed) \<and>
   sl_min (slice_slider example_confirmed) = 0 \<and> wf_store (annotations example_confirmed) \<and>
   sl_value (slice_slider example_confirmed) = 14 \<and>
   (\<exists>s'. on_file_changed example_world (Some ''b.nii'') example_confirmed = Inr s' \<and>
      sl_value (slice_slider s') = 3 \<and> loaded s' (4, 6, 8) Axial)"
proof -
  have h: "folder example_confirmed = Some ''/scans''"
    "nib_load example_world (path_join ''/scans'' ''b.nii'') = Some (4, 6, 8)"
    "0 < extent (4, 6, 8) (axis_combo example_confirmed)"
    "sl_min (slice_slider example_confirmed) = 0" "wf_store (annotations example_confirmed)"
    by (simp_all add: example_confirmed_def example_loaded_def example_world_def path_join_def
        extent_def)
  have v: "sl_value (slice_slider example_confirmed) = 14" "axis_combo example_confirmed = Axial"
    by (simp_all add: example_confirmed_def example_loaded_def)
  from file_change_resets_to_midpoint [OF h] h v show ?thesis by (auto simp: extent_def)
qed

section \<open>The reference module reads back what it writes\<close>

declare show_nat.simps [simp del]

lemma char_of_48: "char_of (48::nat) = CHR ''0''"
  by code_simp

lemma of_char_digit: "d < 10 \<Longrightarrow> (of_char (digit_char d) :: nat) = 48 + d"
  by (simp add: digit_char_def)

lemma is_digit_digit_char: "d < 10 \<Longrightarrow> is_digit (digit_char d)"
  by (simp add: is_digit_def of_char_digit)

lemma show_nat_digits: "list_all is_digit (show_nat n)"
proof (induction n rule: show_nat.induct)
  case (1 n)
  show ?case
  proof (cases "n < 10")
    case True
    then show ?thesis by (subst show_nat.simps) (simp add: is_digit_digit_char)
  next
    case False
    with 1 show ?thesis by (subst show_nat.simps) (simp add: is_digit_digit_char)
  qed
qed

lemma show_nat_nonempty: "show_nat n \<noteq> []"
  by (subst show_nat.simps) simp

lemma digit_char_zero: "d < 10 \<Longrightarrow> digit_char d = CHR ''0'' \<longleftrightarrow> d = 0"
proof
  assume "d < 10" "digit_char d = CHR ''0''"
  then have "(of_char (digit_char d) :: nat) = of_char (CHR ''0'')" by simp
  with \<open>d < 10\<close> show "d = 0" by (simp add: of_char_digit)
next
  assume "d = 0" then show "digit_char d = CHR ''0''" by (simp add: digit_char_def char_of_48)
qed

lemma show_nat_hd: "hd (show_nat n) = CHR ''0'' \<longleftrightarrow> n = 0"
proof (induction n rule: show_nat.induct)
  case (1 n)
  show ?case
  proof (cases "n < 10")
    case True
    then show ?thesis by (subst show_nat.simps) (simp add: digit_char_zero)
  next
    case False
    then have "n div 10 \<noteq> 0" by simp
    with 1 False show ?thesis
      by (subst show_nat.simps) (simp add: hd_append show_nat_nonempty)
  qed
qed

lemma digits_val_snoc: "digits_val (ds @ [d]) = 10 * digits_val ds + (int (of_char d) - 48)"
  by (simp add: digits_val_def)

lemma digits_val_show_nat: "digits_val (show_nat n) = int n"
proof (induction n rule: show_nat.induct)
  case (1 n)
  show ?case
  proof (cases "n < 10")
    case True
    then show ?thesis
      by (subst show_nat.simps) (simp add: digits_val_def of_char_digit)
  next
    case False
    with 1 have "digits_val (show_nat (n div 10)) = int (n div 10)" by simp
    moreover have "10 * int (n div 10) + int (n mod 10) = int n" by presburger
    ultimately show ?thesis using False
      by (subst show_nat.simps) (simp add: digits_val_snoc of_char_digit)
  qed
qed

lemma ok_rest_not_digit: "ok_rest r \<Longrightarrow> r \<noteq> [] \<Longrightarrow> \<not> is_digit (hd r)"
  by (auto simp: ok_rest_def is_digit_def)

lemma takeWhile_digits:
  assumes "list_all is_digit ds" "ok_rest r"
  shows "takeWhile is_digit (ds @ r) = ds"
proof -
  have "takeWhile is_digit r = []"
    using assms(2) by (cases r) (auto simp: ok_rest_def is_digit_def)
  with assms(1) show ?thesis by (simp add: takeWhile_append2 list_all_iff)
qed

lemma is_digit_not_minus: "is_digit c \<Longrightarrow> c \<noteq> CHR ''-''"
  by (auto simp: is_digit_def)

lemma show_nat_hd_digit: "is_digit (hd (show_nat n))"
  using show_nat_digits [of n] show_nat_nonempty [of n] by (cases "show_nat n") auto

lemma scan_int_show_nat:
  assumes "ok_rest r"
  shows "scan_int (show_nat n @ r) = Some (int n, r)"
proof -
  let ?t = "show_nat n @ r"
  have ne: "?t \<noteq> []" by (simp add: show_nat_nonempty)
  have hd: "hd ?t = hd (show_nat n)" by (simp add: hd_append show_nat_nonempty)
  have nm: "hd ?t \<noteq> CHR ''-''" using show_nat_hd_digit [of n] is_digit_not_minus hd by metis
  have rest: "\<not> (r \<noteq> [] \<and> (hd r = CHR ''.'' \<or> hd r = CHR ''e'' \<or> hd r = CHR ''E''))"
    using assms by (auto simp: ok_rest_def)
  show ?thesis
  proof (cases "n = 0")
    case True
    have z: "show_nat 0 = ''0''"
      by (subst show_nat.simps) (simp add: digit_char_def char_of_48)
    have "scan_int (''0'' @ r) = Some (0, r)"
      using rest by (simp add: scan_int_def Let_def digits_val_def)
    then show ?thesis using True by (simp add: z)
  next
    case False
    then have "hd ?t \<noteq> CHR ''0''" using show_nat_hd hd by simp
    moreover have "takeWhile is_digit ?t = show_nat n"
      using show_nat_digits assms by (rule takeWhile_digits)
    ultimately show ?thesis using ne nm rest
      by (simp add: scan_int_def Let_def show_nat_nonempty digits_val_show_nat)
  qed
qed

lemma scan_int_show_int:
  assumes "ok_rest r"
  shows "scan_int (show_int i @ r) = Some (i, r)"
proof (cases "i < 0")
  case False
  then show ?thesis using scan_int_show_nat [OF assms, of "nat i"] by (simp add: show_int_def)
next
  case True
  let ?n = "nat (- i)"
  let ?t = "show_nat ?n @ r"
  have n0: "?n \<noteq> 0" using True by simp
  have ne: "?t \<noteq> []" by (simp add: show_nat_nonempty)
  have hd: "hd ?t = hd (show_nat ?n)" by (simp add: hd_append show_nat_nonempty)
  have "hd ?t \<noteq> CHR ''0''" using n0 show_nat_hd hd by simp
  moreover have "takeWhile is_digit ?t = show_nat ?n"
    using show_nat_digits assms by (rule takeWhile_digits)
  moreover have "\<not> (r \<noteq> [] \<and> (hd r = CHR ''.'' \<or> hd r = CHR ''e'' \<or> hd r = CHR ''E''))"
    using assms by (auto simp: ok_rest_def)
  ultimately show ?thesis using True ne
    by (simp add: scan_int_def show_int_def Let_def show_nat_nonempty digits_val_show_nat)
qed

lemma hex_val_hex_char: "d < 16 \<Longrightarrow> hex_val (hex_char d) = Some d"
  by (auto simp: hex_val_def hex_char_def Let_def)

lemma of_char_less_256: "(of_char c :: nat) < 256"
proof -
  have "(of_char c :: nat) = of_char c mod 256" by simp
  also have "\<dots> < 256" by (rule mod_less_divisor) simp
  finally show ?thesis .
qed

lemma hex4_of_char:
  "hex4 (CHR ''0'') (CHR ''0'') (hex_char (of_char c div 16)) (hex_char (of_char c mod 16)) = Some c"
proof -
  let ?n = "of_char c :: nat"
  have "?n < 16 * 16" using of_char_less_256 [of c] by simp
  then have "?n div 16 < 16" by (simp only: less_mult_imp_div_less)
  moreover have "?n mod 16 < 16" by simp
  moreover have "hex_val (CHR ''0'') = Some 0" by (simp add: hex_val_def)
  moreover have "char_of (16 * (?n div 16) + ?n mod 16) = c" by simp
  ultimately show ?thesis by (simp add: hex4_def hex_val_hex_char)
qed

lemma scan_str_escape_char:
  "scan_str (escape_char c @ r) = map_option (\<lambda>p. (c # fst p, snd p)) (scan_str r)"
proof -
  consider (named) "c = CHR 0x22 \<or> c = CHR 0x5C \<or> c = CHR 0x0A \<or> c = CHR 0x0D \<or> c = CHR 0x09
      \<or> c = CHR 0x08 \<or> c = CHR 0x0C"
    | (coded) "\<not> (c = CHR 0x22 \<or> c = CHR 0x5C \<or> c = CHR 0x0A \<or> c = CHR 0x0D \<or> c = CHR 0x09
      \<or> c = CHR 0x08 \<or> c = CHR 0x0C)" "(of_char c :: nat) < 32 \<or> 126 < (of_char c :: nat)"
    | (plain) "c \<noteq> CHR 0x22" "c \<noteq> CHR 0x5C" "\<not> ((of_char c :: nat) < 32 \<or> 126 < (of_char c :: nat))"
    by blast
  then show ?thesis
  proof cases
    case named
    then show ?thesis by (auto simp: escape_char_def unescape_def)
  next
    case coded
    then have "escape_char c = [CHR 0x5C, CHR ''u'', CHR ''0'', CHR ''0'',
        hex_char (of_char c div 16), hex_char (of_char c mod 16)]"
      by (simp add: escape_char_def)
    then show ?thesis by (simp add: hex4_of_char)
  next
    case plain
    then have "escape_char c = [c]" by (auto simp: escape_char_def)
    with plain show ?thesis by simp
  qed
qed

lemma scan_str_escaped:
  "scan_str (concat (map escape_char t) @ CHR 0x22 # r) = Some (t, r)"
  by (induction t) (simp_all add: scan_str_escape_char del: scan_str.simps(2), simp)

lemma scan_str_show_str: "scan_str (tl (show_str t @ r)) = Some (t, r)"
  using scan_str_escaped [of t r] by (simp add: show_str_def)

lemma show_str_hd: "hd (show_str t @ r) = CHR 0x22" "show_str t @ r \<noteq> []"
  by (simp_all add: show_str_def)

lemma skip_ws_id: "t \<noteq> [] \<Longrightarrow> \<not> is_ws (hd t) \<Longrightarrow> skip_ws t = t"
  by (cases t) (simp_all add: skip_ws_def)

lemma skip_ws_nl: "skip_ws (CHR 0x0A # t) = skip_ws t"
  by (simp add: skip_ws_def is_ws_def)

lemma skip_ws_space: "skip_ws (CHR '' '' # t) = skip_ws t"
  by (simp add: skip_ws_def is_ws_def)

lemma skip_ws_indent: "skip_ws (indent l @ t) = skip_ws t"
  by (simp add: skip_ws_def indent_def dropWhile_append is_ws_def)

lemma show_int_hd: "show_int i \<noteq> [] \<and> (hd (show_int i) = CHR ''-'' \<or> is_digit (hd (show_int i)))"
  using show_nat_hd_digit show_nat_nonempty by (simp add: show_int_def)

lemma encode_nonempty: "encode l v \<noteq> []"
  using show_int_hd by (cases v) (auto simp: show_str_def)

lemma encode_hd: "opener (hd (encode l v))"
  using show_int_hd by (cases v) (auto simp: show_str_def opener_def)

lemma opener_facts:
  assumes "opener c"
  shows "\<not> is_ws c" "c \<noteq> CHR '']''" "c \<noteq> CHR ''}''" "c \<noteq> CHR '',''"
  using assms by (auto simp: opener_def is_ws_def is_digit_def)

lemma skip_ws_encode: "skip_ws (encode l v @ r) = encode l v @ r"
  using encode_nonempty [of l v] encode_hd [of l v] opener_facts(1)
  by (intro skip_ws_id) (simp_all add: hd_append)

lemma not_literal:
  assumes "t \<noteq> []" "hd t \<noteq> CHR ''n''" "hd t \<noteq> CHR ''t''" "hd t \<noteq> CHR ''f''"
  shows "take 4 t \<noteq> ''null''" "take 4 t \<noteq> ''true''" "take 5 t \<noteq> ''false''"
  using assms by (cases t; auto)+

lemma scan_value_null: "scan_value (Suc n) (''null'' @ r) = Some (JNull, r)"
  by simp

lemma scan_value_bool: "scan_value (Suc n) ((if b then ''true'' else ''false'') @ r) = Some (JBool b, r)"
  by simp

lemma scan_value_str: "scan_value (Suc n) (show_str t @ r) = Some (JStr t, r)"
proof -
  let ?t = "show_str t @ r"
  have h: "?t \<noteq> []" "hd ?t = CHR 0x22" by (simp_all add: show_str_def)
  then have "take 4 ?t \<noteq> ''null''" "take 4 ?t \<noteq> ''true''" "take 5 ?t \<noteq> ''false''"
    by (intro not_literal; simp)+
  with h show ?thesis
    by (simp add: scan_str_show_str del: append_assoc)
qed

lemma scan_value_int:
  assumes "ok_rest r"
  shows "scan_value (Suc n) (show_int i @ r) = Some (JInt i, r)"
proof -
  let ?t = "show_int i @ r"
  have ne: "?t \<noteq> []" using show_int_hd by simp
  have hd: "hd ?t = CHR ''-'' \<or> is_digit (hd ?t)" using show_int_hd [of i] by (simp add: hd_append)
  then have c: "hd ?t \<noteq> CHR ''n''" "hd ?t \<noteq> CHR ''t''" "hd ?t \<noteq> CHR ''f''"
    "hd ?t \<noteq> CHR 0x22" "hd ?t \<noteq> CHR ''[''" "hd ?t \<noteq> CHR ''{''"
    by (auto simp: is_digit_def)
  from ne c(1,2,3) have "take 4 ?t \<noteq> ''null''" "take 4 ?t \<noteq> ''true''" "take 5 ?t \<noteq> ''false''"
    by (rule not_literal)+
  with c show ?thesis
    by (simp add: scan_int_show_int [OF assms] del: append_assoc)
qed

lemma scan_elems_items:
  assumes "\<And>x r n. x \<in> set xs \<Longrightarrow> ok_rest r \<Longrightarrow> weight x \<le> n \<Longrightarrow>
             scan_value n (encode l x @ r) = Some (x, r)"
    and "xs \<noteq> []" and "sum_list (map (\<lambda>x. Suc (weight x)) xs) \<le> m"
  shows "scan_elems m (skip_ws (join [CHR '','', CHR 0x0A] (map (\<lambda>x. indent l @ encode l x) xs)
           @ CHR 0x0A # indent k @ CHR '']'' # r)) = Some (xs, r)"
  using assms
proof (induction xs arbitrary: m)
  case Nil
  then show ?case by simp
next
  case (Cons x xs)
  from Cons.prems(3) obtain m' where m: "m = Suc m'" and wx: "weight x \<le> m'"
    and rest: "sum_list (map (\<lambda>x. Suc (weight x)) xs) \<le> m'"
    by (cases m) auto
  show ?case
  proof (cases xs)
    case Nil
    let ?r' = "CHR 0x0A # indent k @ CHR '']'' # r"
    have v: "scan_value m' (encode l x @ ?r') = Some (x, ?r')"
      using wx by (intro Cons.prems(1)) (simp_all add: ok_rest_def)
    have s: "skip_ws ?r' = CHR '']'' # r"
      by (simp add: skip_ws_nl skip_ws_indent skip_ws_id is_ws_def)
    have "skip_ws ((indent l @ encode l x) @ ?r') = encode l x @ ?r'"
      by (simp add: skip_ws_indent skip_ws_encode)
    then show ?thesis
      using Nil v s by (simp add: m Let_def)
  next
    case (Cons y ys)
    let ?tail = "join [CHR '','', CHR 0x0A] (map (\<lambda>x. indent l @ encode l x) (y # ys))
           @ CHR 0x0A # indent k @ CHR '']'' # r"
    let ?r' = "CHR '','' # CHR 0x0A # ?tail"
    have v: "scan_value m' (encode l x @ ?r') = Some (x, ?r')"
      using wx by (intro Cons.prems(1)) (simp_all add: ok_rest_def)
    have s: "skip_ws ?r' = ?r'" by (simp add: skip_ws_id is_ws_def)
    have ih: "scan_elems m' (skip_ws ?tail) = Some (y # ys, r)"
      using Cons.IH [of m'] Cons.prems(1) rest Cons by simp
    have t: "skip_ws (join [CHR '','', CHR 0x0A] (map (\<lambda>x. indent l @ encode l x) (x # y # ys))
           @ CHR 0x0A # indent k @ CHR '']'' # r) = encode l x @ ?r'"
      by (simp add: skip_ws_indent skip_ws_encode)
    show ?thesis
      unfolding Cons t m
      using v s ih by (simp add: Let_def skip_ws_nl del: join.simps)
  qed
qed

lemma scan_members_items:
  assumes "\<And>kv r n. kv \<in> set kvs \<Longrightarrow> ok_rest r \<Longrightarrow> weight (snd kv) \<le> n \<Longrightarrow>
             scan_value n (encode l (snd kv) @ r) = Some (snd kv, r)"
    and "kvs \<noteq> []" and "sum_list (map (\<lambda>kv. Suc (weight (snd kv))) kvs) \<le> m"
  shows "scan_members m (skip_ws (join [CHR '','', CHR 0x0A]
             (map (\<lambda>kv. indent l @ show_str (fst kv) @ '': '' @ encode l (snd kv)) kvs)
           @ CHR 0x0A # indent k @ CHR ''}'' # r)) = Some (kvs, r)"
  using assms
proof (induction kvs arbitrary: m)
  case Nil
  then show ?case by simp
next
  case (Cons kv kvs)
  obtain key v where kv: "kv = (key, v)" by (cases kv)
  from Cons.prems(3) obtain m' where m: "m = Suc m'" and wx: "weight v \<le> m'"
    and rest: "sum_list (map (\<lambda>kv. Suc (weight (snd kv))) kvs) \<le> m'"
    by (cases m) (auto simp: kv)
  have keyq: "\<And>t. show_str key @ t \<noteq> [] \<and> hd (show_str key @ t) = CHR 0x22 \<and>
      scan_str (tl (show_str key @ t)) = Some (key, t)"
    using scan_str_show_str by (simp add: show_str_def)
  have colon: "\<And>t. skip_ws ('': '' @ encode l v @ t) = '': '' @ encode l v @ t"
    by (simp add: skip_ws_id is_ws_def)
  have valq: "\<And>t. skip_ws (tl ('': '' @ encode l v @ t)) = encode l v @ t"
    by (simp add: skip_ws_space skip_ws_encode)
  show ?case
  proof (cases kvs)
    case Nil
    let ?r' = "CHR 0x0A # indent k @ CHR ''}'' # r"
    have v: "scan_value m' (encode l v @ ?r') = Some (v, ?r')"
      using wx Cons.prems(1) [of kv ?r' m'] by (simp add: ok_rest_def kv)
    have s: "skip_ws ?r' = CHR ''}'' # r"
      by (simp add: skip_ws_nl skip_ws_indent skip_ws_id is_ws_def)
    have t: "skip_ws (join [CHR '','', CHR 0x0A]
             (map (\<lambda>kv. indent l @ show_str (fst kv) @ '': '' @ encode l (snd kv)) [kv])
           @ ?r') = show_str key @ ('': '' @ encode l v @ ?r')"
      using keyq [of "'': '' @ encode l v @ ?r'"]
      by (simp add: kv skip_ws_indent skip_ws_id is_ws_def)
    show ?thesis
      unfolding Nil t m scan_members.simps
      using keyq [of "'': '' @ encode l v @ ?r'"] colon [of ?r'] valq [of ?r'] v s
      by (simp add: Let_def kv del: append_assoc append.simps)
  next
    case (Cons y ys)
    let ?tail = "join [CHR '','', CHR 0x0A]
         (map (\<lambda>kv. indent l @ show_str (fst kv) @ '': '' @ encode l (snd kv)) (y # ys))
           @ CHR 0x0A # indent k @ CHR ''}'' # r"
    let ?r' = "CHR '','' # CHR 0x0A # ?tail"
    have v: "scan_value m' (encode l v @ ?r') = Some (v, ?r')"
      using wx Cons.prems(1) [of kv ?r' m'] by (simp add: ok_rest_def kv)
    have s: "skip_ws ?r' = ?r'" by (simp add: skip_ws_id is_ws_def)
    have ih: "scan_members m' (skip_ws ?tail) = Some (y # ys, r)"
      using Cons.IH [of m'] Cons.prems(1) rest Cons by simp
    have t: "skip_ws (join [CHR '','', CHR 0x0A]
         (map (\<lambda>kv. indent l @ show_str (fst kv) @ '': '' @ encode l (snd kv)) (kv # y # ys))
           @ CHR 0x0A # indent k @ CHR ''}'' # r) = show_str key @ ('': '' @ encode l v @ ?r')"
      using keyq [of "'': '' @ encode l v @ ?r'"]
      by (simp add: kv skip_ws_indent skip_ws_id is_ws_def)
    show ?thesis
      unfolding Cons t m scan_members.simps
      using keyq [of "'': '' @ encode l v @ ?r'"] colon [of ?r'] valq [of ?r'] v s ih
      by (simp add: Let_def kv skip_ws_nl del: append_assoc append.simps join.simps)
  qed
qed

lemma foldl_dict_set:
  "distinct (map fst (acc @ kvs)) \<Longrightarrow>
   foldl (\<lambda>d kv. dict_set d (fst kv) (snd kv)) acc kvs = acc @ kvs"
proof (induction kvs arbitrary: acc)
  case Nil
  then show ?case by simp
next
  case (Cons kv kvs)
  have "dict_set acc (fst kv) (snd kv) = acc @ [kv]"
    using Cons.prems by (induction acc) auto
  with Cons.IH [of "acc @ [kv]"] Cons.prems show ?case by simp
qed

lemma scan_value_encode:
  "json_ok v \<Longrightarrow> ok_rest r \<Longrightarrow> weight v \<le> n \<Longrightarrow> scan_value n (encode l v @ r) = Some (v, r)"
proof (induction v arbitrary: l r n)
  case JNull
  then obtain n' where "n = Suc n'" by (cases n) auto
  then show ?case using scan_value_null [of n' r] by simp
next
  case (JBool b)
  then obtain n' where "n = Suc n'" by (cases n) auto
  then show ?case using scan_value_bool [of n' b r] by simp
next
  case (JInt i)
  then obtain n' where "n = Suc n'" by (cases n) auto
  then show ?case using scan_value_int [OF JInt.prems(2), of n' i] by simp
next
  case (JStr t)
  then obtain n' where "n = Suc n'" by (cases n) auto
  then show ?case using scan_value_str [of n' t r] by simp
next
  case (JArr xs)
  from JArr.prems(3) obtain n' where n: "n = Suc n'"
    and w: "sum_list (map (\<lambda>x. Suc (weight x)) xs) \<le> n'" by (cases n) auto
  show ?case
  proof (cases "xs = []")
    case True
    then show ?thesis by (simp add: n skip_ws_id is_ws_def)
  next
    case False
    let ?items = "join [CHR '','', CHR 0x0A] (map (\<lambda>x. indent (Suc l) @ encode (Suc l) x) xs)
           @ CHR 0x0A # indent l @ CHR '']'' # r"
    have el: "\<And>x r n. x \<in> set xs \<Longrightarrow> ok_rest r \<Longrightarrow> weight x \<le> n \<Longrightarrow>
             scan_value n (encode (Suc l) x @ r) = Some (x, r)"
      using JArr.IH JArr.prems(1) by (auto simp: list_all_iff)
    have E: "scan_elems n' (skip_ws ?items) = Some (xs, r)"
      using el False w by (rule scan_elems_items)
    obtain x ys where xs: "xs = x # ys" using False by (cases xs) auto
    have "skip_ws ?items = encode (Suc l) x @ drop (length (indent (Suc l) @ encode (Suc l) x)) ?items"
      by (cases ys) (simp_all add: xs skip_ws_indent skip_ws_encode)
    then have O: "skip_ws ?items \<noteq> []" "hd (skip_ws ?items) \<noteq> CHR '']''"
      using encode_nonempty [of "Suc l" x] encode_hd [of "Suc l" x] opener_facts(2)
      by (auto simp: hd_append)
    have T: "encode l (JArr xs) @ r = CHR ''['' # CHR 0x0A # ?items"
      using False by simp
    show ?thesis
      unfolding T n using E O by (simp add: skip_ws_nl Let_def del: join.simps)
  qed
next
  case (JObj kvs)
  from JObj.prems(3) obtain n' where n: "n = Suc n'"
    and w: "sum_list (map (\<lambda>kv. Suc (weight (snd kv))) kvs) \<le> n'" by (cases n) auto
  from JObj.prems(1) have D: "distinct (map fst kvs)" by simp
  show ?case
  proof (cases "kvs = []")
    case True
    then show ?thesis by (simp add: n skip_ws_id is_ws_def)
  next
    case False
    let ?items = "join [CHR '','', CHR 0x0A]
             (map (\<lambda>kv. indent (Suc l) @ show_str (fst kv) @ '': '' @ encode (Suc l) (snd kv)) kvs)
           @ CHR 0x0A # indent l @ CHR ''}'' # r"
    have el: "\<And>kv r n. kv \<in> set kvs \<Longrightarrow> ok_rest r \<Longrightarrow> weight (snd kv) \<le> n \<Longrightarrow>
             scan_value n (encode (Suc l) (snd kv) @ r) = Some (snd kv, r)"
    proof -
      fix kv r n assume a: "kv \<in> set kvs" "ok_rest r" "weight (snd kv) \<le> n"
      obtain k v where kv: "kv = (k, v)" by (cases kv)
      from a(1) JObj.prems(1) have jv: "json_ok v" by (auto simp: list_all_iff kv)
      have sv: "v \<in> Basic_BNFs.snds kv" by (simp add: kv)
      from JObj.IH [OF a(1) sv jv a(2)] a(3) show
        "scan_value n (encode (Suc l) (snd kv) @ r) = Some (snd kv, r)"
        by (simp add: kv)
    qed
    have E: "scan_members n' (skip_ws ?items) = Some (kvs, r)"
      using el False w by (rule scan_members_items)
    obtain kv ys where kvs: "kvs = kv # ys" using False by (cases kvs) auto
    have "skip_ws ?items = show_str (fst kv) @ drop (length (indent (Suc l) @ show_str (fst kv))) ?items"
      by (cases ys) (simp_all add: kvs skip_ws_indent skip_ws_id show_str_def is_ws_def)
    then have O: "skip_ws ?items \<noteq> []" "hd (skip_ws ?items) \<noteq> CHR ''}''"
      by (auto simp: show_str_def)
    have T: "encode l (JObj kvs) @ r = CHR ''{'' # CHR 0x0A # ?items"
      using False by simp
    have F: "foldl (\<lambda>d kv. dict_set d (fst kv) (snd kv)) [] kvs = kvs"
      using foldl_dict_set [of "[]" kvs] D by simp
    show ?thesis
      unfolding T n using E O F by (simp add: skip_ws_nl Let_def del: join.simps)
  qed
qed

lemma length_join: "sum_list (map length xs) \<le> length (join sep xs)"
  by (induction sep xs rule: join.induct) auto

lemma weight_le_length: "weight v \<le> length (encode l v)"
proof (induction v arbitrary: l)
  case (JArr xs)
  show ?case
  proof (cases "xs = []")
    case True
    then show ?thesis by simp
  next
    case False
    have "sum_list (map (\<lambda>x. Suc (weight x)) xs)
            \<le> sum_list (map length (map (\<lambda>x. indent (Suc l) @ encode (Suc l) x) xs))"
      unfolding map_map comp_def
      using JArr.IH by (intro sum_list_mono) (simp add: indent_def le_Suc_eq trans_le_add2)
    also have "\<dots> \<le> length (join [CHR '','', CHR 0x0A] (map (\<lambda>x. indent (Suc l) @ encode (Suc l) x) xs))"
      by (rule length_join)
    finally show ?thesis using False by simp
  qed
next
  case (JObj kvs)
  show ?case
  proof (cases "kvs = []")
    case True
    then show ?thesis by simp
  next
    case False
    have "sum_list (map (\<lambda>kv. Suc (weight (snd kv))) kvs)
            \<le> sum_list (map length
                 (map (\<lambda>kv. indent (Suc l) @ show_str (fst kv) @ '': '' @ encode (Suc l) (snd kv)) kvs))"
      unfolding map_map comp_def
    proof (intro sum_list_mono)
      fix kv assume m: "kv \<in> set kvs"
      have sv: "snd kv \<in> Basic_BNFs.snds kv" by (cases kv) simp
      have "weight (snd kv) \<le> length (encode (Suc l) (snd kv))"
        by (rule JObj.IH [OF m sv])
      then show "Suc (weight (snd kv))
          \<le> length (indent (Suc l) @ show_str (fst kv) @ '': '' @ encode (Suc l) (snd kv))"
        by simp
    qed
    also have "\<dots> \<le> length (join [CHR '','', CHR 0x0A]
        (map (\<lambda>kv. indent (Suc l) @ show_str (fst kv) @ '': '' @ encode (Suc l) (snd kv)) kvs))"
      by (rule length_join)
    finally show ?thesis using False by simp
  qed
qed (simp_all add: show_str_def Suc_le_eq show_nat_nonempty show_int_def)

lemma reference_json_roundtrip:
  assumes "json_ok v"
  shows "json_decode (json_encode v) = Some v"
proof -
  let ?t = "encode 0 v"
  have "weight v \<le> 2 * length ?t + 2" using weight_le_length [of v 0] by simp
  with assms have "scan_value (2 * length ?t + 2) (?t @ []) = Some (v, [])"
    by (intro scan_value_encode) (simp_all add: ok_rest_def)
  moreover have "skip_ws ?t = ?t" using skip_ws_encode [of 0 v "[]"] by simp
  ultimately show ?thesis by (simp add: json_decode_def json_encode_def skip_ws_def)
qed

lemma reference_reads_back:
  assumes "json_ok v" "json_dumps w = json_encode" "json_loads w = reference_loads"
  shows "reads_back w v"
  using assms by (simp add: reads_back_def reference_loads_def reference_json_roundtrip)

section \<open>Export and load\<close>

text \<open>
  C7. Export followed by load: \<^verbatim>\<open>save_annotations\<close> writes the whole store to
  \<^verbatim>\<open>annotations.json\<close> of the folder, and \<^verbatim>\<open>load_existing_annotations\<close> of any session
  on the same folder and disk (a fresh one in particular) then holds an equal store and
  prints no warning, provided the \<^verbatim>\<open>json\<close> module reads back what it wrote for this
  store. The reference module does so for every store (lemma \<open>reference_reads_back\<close>).
\<close>

theorem export_load_roundtrip:
  assumes "folder s = Some dir" "reads_back w (annotations s)"
  shows "\<exists>s1. save_annotations w s = Inr s1 \<and>
           (\<forall>s0. folder s0 = Some dir \<and> fs s0 = fs s1 \<longrightarrow>
              (\<exists>s2. load_existing_annotations w s0 = Inr s2 \<and>
                 annotations s2 = annotations s \<and> stdout s2 = stdout s0))"
  using assms by (simp add: save_annotations_def load_existing_annotations_def reads_back_def)

theorem export_load_roundtrip_witness:
  "folder example_confirmed = Some ''/scans'' \<and>
   reads_back example_world (annotations example_confirmed) \<and>
   (\<exists>s1. save_annotations example_world example_confirmed = Inr s1 \<and>
      (\<exists>s2. load_existing_annotations example_world ((init (fs s1))\<lparr>folder := Some ''/scans''\<rparr>)
               = Inr s2 \<and>
         annotations s2 = annotations example_confirmed \<and> stdout s2 = []))"
proof -
  have h: "folder example_confirmed = Some ''/scans''"
    "reads_back example_world (annotations example_confirmed)"
    by (simp add: example_confirmed_def example_loaded_def,
        rule reference_reads_back)
       (simp_all add: example_confirmed_def example_loaded_def example_world_def)
  from export_load_roundtrip [OF h] obtain s1 where
    S: "save_annotations example_world example_confirmed = Inr s1"
    and L: "\<forall>s0. folder s0 = Some ''/scans'' \<and> fs s0 = fs s1 \<longrightarrow>
              (\<exists>s2. load_existing_annotations example_world s0 = Inr s2 \<and>
                 annotations s2 = annotations example_confirmed \<and> stdout s2 = stdout s0)"
    by blast
  let ?s0 = "(init (fs s1))\<lparr>folder := Some ''/scans''\<rparr>"
  have "folder ?s0 = Some ''/scans'' \<and> fs ?s0 = fs s1" by (simp add: init_def)
  with L obtain s2 where "load_existing_annotations example_world ?s0 = Inr s2"
    "annotations s2 = annotations example_confirmed" "stdout s2 = stdout ?s0" by blast
  moreover have "stdout ?s0 = []" by (simp add: init_def)
  ultimately show ?thesis using h S by auto
qed

text \<open>
  C8, as the code has it. When \<^verbatim>\<open>annotations.json\<close> exists and \<^verbatim>\<open>json.load\<close> rejects its
  content with \<^verbatim>\<open>JSONDecodeError\<close>, loading returns normally, prints the warning line and
  changes nothing else: the store stays as it was (empty in a fresh session), nothing is
  loaded in part.
\<close>

theorem load_unparseable_file:
  assumes "folder s = Some dir" "fs s (path_join dir ''annotations.json'') = Some text"
    "json_loads w text = JSONDecodeError"
  shows "load_existing_annotations w s =
           Inr (s\<lparr>stdout := stdout s @ [''Failed to parse annotations.json'']\<rparr>)"
  using assms by (simp add: load_existing_annotations_def)

lemma example_truncated: "json_decode ''{\"a.nii\": {\"axial\": [4,'' = None"
  by code_simp

lemma example_foreign: "json_decode ''{\"x\": 1}'' = Some (JObj [(''x'', JInt 1)])"
  by code_simp

theorem load_unparseable_file_witness:
  "folder (example_loaded\<lparr>fs := [''/scans/annotations.json'' \<mapsto> ''{\"a.nii\": {\"axial\": [4,'']\<rparr>)
     = Some ''/scans'' \<and>
   fs (example_loaded\<lparr>fs := [''/scans/annotations.json'' \<mapsto> ''{\"a.nii\": {\"axial\": [4,'']\<rparr>)
     (path_join ''/scans'' ''annotations.json'') = Some ''{\"a.nii\": {\"axial\": [4,'' \<and>
   json_loads example_world ''{\"a.nii\": {\"axial\": [4,'' = JSONDecodeError \<and>
   load_existing_annotations example_world
     (example_loaded\<lparr>fs := [''/scans/annotations.json'' \<mapsto> ''{\"a.nii\": {\"axial\": [4,'']\<rparr>)
     = Inr (example_loaded\<lparr>fs := [''/scans/annotations.json'' \<mapsto> ''{\"a.nii\": {\"axial\": [4,''],
                           stdout := [''Failed to parse annotations.json'']\<rparr>) \<and>
   annotations example_loaded = JObj []"
proof -
  let ?s = "example_loaded\<lparr>fs := [''/scans/annotations.json'' \<mapsto> ''{\"a.nii\": {\"axial\": [4,'']\<rparr>"
  have h: "folder ?s = Some ''/scans''"
    "fs ?s (path_join ''/scans'' ''annotations.json'') = Some ''{\"a.nii\": {\"axial\": [4,''"
    "json_loads example_world ''{\"a.nii\": {\"axial\": [4,'' = JSONDecodeError"
    using example_truncated
    by (simp_all add: example_loaded_def path_join_def example_world_def reference_loads_def)
  from load_unparseable_file [OF h] h show ?thesis by (simp add: example_loaded_def)
qed

text \<open>
  The claim C8 itself fails for content that is valid JSON but not a mapping from
  filenames to per-axis index lists: it is loaded as it is and nothing is printed.
\<close>

theorem load_accepts_other_json:
  "json_loads example_world ''{\"x\": 1}'' = Loaded (JObj [(''x'', JInt 1)]) \<and>
   \<not> wf_store (JObj [(''x'', JInt 1)]) \<and>
   load_existing_annotations example_world
     (example_loaded\<lparr>fs := [''/scans/annotations.json'' \<mapsto> ''{\"x\": 1}'']\<rparr>)
     = Inr (example_loaded\<lparr>fs := [''/scans/annotations.json'' \<mapsto> ''{\"x\": 1}''],
                           annotations := JObj [(''x'', JInt 1)]\<rparr>) \<and>
   stdout example_loaded = []"
  using example_foreign
  by (simp add: load_existing_annotations_def example_loaded_def path_join_def example_world_def
      reference_loads_def)

text \<open>
  An exception of \<^verbatim>\<open>json.load\<close> other than \<^verbatim>\<open>JSONDecodeError\<close> is not caught and leaves
  the handler.
\<close>

lemma load_uncaught_exception:
  assumes "folder s = Some dir" "fs s (path_join dir ''annotations.json'') = Some text"
    "json_loads w text = Raises e"
  shows "load_existing_annotations w s = Inl e"
  using assms by (simp add: load_existing_annotations_def)

text \<open>
  C1, as the code has it. In a session with an empty store, after one confirmation on the
  current file the store, and so the exported mapping, has that file as its only key,
  mapped to the record with the confirmed index in the axial list and two empty lists. Any
  other file of the folder is not a key of the export; the annotation panel would read
  empty lists for it.
\<close>

theorem export_after_single_confirm:
  assumes "annotations s = JObj []" "current_item s = Some fa" "axis_combo s = Axial"
    "folder s = Some dir" "fb \<noteq> fa"
  shows "\<exists>s1 s2. annotate_page s = Inr s1 \<and> save_annotations w s1 = Inr s2 \<and>
           annotations s1 =
             JObj [(fa, JObj [(''axial'', JArr [JInt (sl_value (slice_slider s))]),
                              (''coronal'', JArr []), (''sagittal'', JArr [])])] \<and>
           fs s2 (path_join dir ''annotations.json'') = Some (json_dumps w (annotations s1)) \<and>
           py_contains_str (annotations s1) fb = Inr False \<and>
           described_pages (annotations s1) fb a = Inr (JArr [])"
  using assms
  by (simp add: annotate_page_def confirm_def bind_result_def empty_record_def
      update_annotation_display_def display_line_def save_annotations_def described_pages_def)

theorem export_after_single_confirm_witness:
  "annotations example_loaded = JObj [] \<and> current_item example_loaded = Some ''a.nii'' \<and>
   axis_combo example_loaded = Axial \<and> folder example_loaded = Some ''/scans'' \<and>
   ''b.nii'' \<noteq> ''a.nii'' \<and>
   (\<exists>s1 s2. annotate_page example_loaded = Inr s1 \<and> save_annotations example_world s1 = Inr s2 \<and>
      annotations s1 = JObj [(''a.nii'', JObj [(''axial'', JArr [JInt 14]),
                              (''coronal'', JArr []), (''sagittal'', JArr [])])] \<and>
      py_contains_str (annotations s1) ''b.nii'' = Inr False \<and>
      described_pages (annotations s1) ''b.nii'' Coronal = Inr (JArr []))"
proof -
  have h: "annotations example_loaded = JObj []" "current_item example_loaded = Some ''a.nii''"
    "axis_combo example_loaded = Axial" "folder example_loaded = Some ''/scans''"
    "''b.nii'' \<noteq> ''a.nii''"
    by (simp_all add: example_loaded_def)
  have v: "sl_value (slice_slider example_loaded) = 14" by (simp add: example_loaded_def)
  from export_after_single_confirm [OF h, of example_world Coronal] h v show ?thesis by auto
qed

text \<open>
  The claim C1 itself fails: in the session that opens a folder with \<^verbatim>\<open>a.nii\<close> and
  \<^verbatim>\<open>b.nii\<close>, confirms axial index 4 on \<^verbatim>\<open>a.nii\<close> and exports, the written file
  decodes to a mapping whose only key is \<^verbatim>\<open>a.nii\<close>; \<^verbatim>\<open>b.nii\<close> is not a key.
\<close>

theorem export_lacks_unconfirmed_file:
  "\<not> isl single_confirm_session \<and>
   file_items (projr single_confirm_session) = [''a.nii'', ''b.nii''] \<and>
   annotations (projr single_confirm_session)
     = JObj [(''a.nii'', JObj [(''axial'', JArr [JInt 4]), (''coronal'', JArr []),
                               (''sagittal'', JArr [])])] \<and>
   fs (projr single_confirm_session) ''/scans/annotations.json''
     = Some (json_encode (annotations (projr single_confirm_session))) \<and>
   Option.bind (fs (projr single_confirm_session) ''/scans/annotations.json'') json_decode
     = Some (annotations (projr single_confirm_session)) \<and>
   py_contains_str (annotations (projr single_confirm_session)) ''b.nii'' = Inr False"
  unfolding single_confirm_session_def by code_simp

end
